theory Spec2Isabelle
  imports Main
begin

section \<open>JavaScript values\<close>

text \<open>
  The trees the form holder works on (values, errors, touched) are plain JavaScript
  data: primitives, plain objects and arrays. An object is the list of its own
  enumerable properties in insertion order, an array the list of its slots.
  \<open>JHole\<close> is an empty slot of a sparse array (reading it gives \<open>undefined\<close>, but
  \<open>forEach\<close> and \<open>indexOf\<close> skip it). A number is an integer or \<open>NaN\<close>,
  the one value that is not strictly equal to itself.
\<close>

datatype jv =
    JUndef
  | JHole
  | JNull
  | JBool bool
  | JNum int
  | JNaN
  | JStr string
  | JObj "(string \<times> jv) list"
  | JArr "jv list"

text \<open>\<open>Array.isArray\<close>.\<close>

fun isArray :: "jv \<Rightarrow> bool" where
  "isArray (JArr xs) = True"
| "isArray v = False"

text \<open>
  The default \<open>isMergeableObject\<close> of the merge library: a non-null object that is
  not a special object (date, regular expression, element); in this value model,
  a plain object or an array.
\<close>

fun isMergeableObject :: "jv \<Rightarrow> bool" where
  "isMergeableObject (JObj kvs) = True"
| "isMergeableObject (JArr xs) = True"
| "isMergeableObject v = False"

text \<open>JavaScript truthiness, as tested by \<open>!x\<close>, \<open>!!x\<close> and \<open>x ? a : b\<close>.\<close>

fun truthy :: "jv \<Rightarrow> bool" where
  "truthy JUndef = False"
| "truthy JHole = False"
| "truthy JNull = False"
| "truthy (JBool b) = b"
| "truthy (JNum n) = (n \<noteq> 0)"
| "truthy JNaN = False"
| "truthy (JStr s) = (s \<noteq> [])"
| "truthy (JObj kvs) = True"
| "truthy (JArr xs) = True"

text \<open>\<open>typeof x === 'undefined'\<close>: true of \<open>undefined\<close> and of a read from an empty slot.\<close>

fun typeof_undefined :: "jv \<Rightarrow> bool" where
  "typeof_undefined JUndef = True"
| "typeof_undefined JHole = True"
| "typeof_undefined v = False"

text \<open>The own enumerable properties of an object (none for any other value).\<close>

fun own_props :: "jv \<Rightarrow> (string \<times> jv) list" where
  "own_props (JObj kvs) = kvs"
| "own_props v = []"

text \<open>The slots of an array.\<close>

fun elems :: "jv \<Rightarrow> jv list" where
  "elems (JArr xs) = xs"
| "elems v = []"

text \<open>Property read \<open>o[key]\<close> on an object: \<open>undefined\<close> when the key is absent.\<close>

definition jget :: "jv \<Rightarrow> string \<Rightarrow> jv" where
  "jget v key = (case map_of (own_props v) key of Some x \<Rightarrow> x | None \<Rightarrow> JUndef)"

text \<open>
  Property write \<open>o[key] = v\<close> on the property list of an object: an existing key
  keeps its place, a new key is added last.
\<close>

fun obj_set :: "(string \<times> jv) list \<Rightarrow> string \<Rightarrow> jv \<Rightarrow> (string \<times> jv) list" where
  "obj_set [] key v = [(key, v)]"
| "obj_set ((k, x) # kvs) key v =
     (if k = key then (k, v) # kvs else (k, x) # obj_set kvs key v)"

text \<open>Indexed read \<open>a[i]\<close> on an array: \<open>undefined\<close> past the end.\<close>

definition arr_get :: "jv list \<Rightarrow> nat \<Rightarrow> jv" where
  "arr_get xs i = (if i < length xs then xs ! i else JUndef)"

text \<open>
  Indexed write \<open>a[i] = v\<close> on an array: past the end, JavaScript extends the array
  and leaves the slots in between empty.
\<close>

definition arr_set :: "jv list \<Rightarrow> nat \<Rightarrow> jv \<Rightarrow> jv list" where
  "arr_set xs i v =
     (if i < length xs then xs[i := v]
      else xs @ replicate (i - length xs) JHole @ [v])"

text \<open>
  Strict equality \<open>a === b\<close> of two values of which one is a primitive: the
  same value, except that \<open>NaN\<close> equals nothing.
\<close>

definition strict_equals :: "jv \<Rightarrow> jv \<Rightarrow> bool" where
  "strict_equals a b = (a = b \<and> a \<noteq> JNaN)"

text \<open>
  \<open>Array.prototype.indexOf\<close>: the first index whose slot is not empty and is
  strictly equal to the element, or \<open>-1\<close>.
\<close>

fun indexOf :: "jv list \<Rightarrow> jv \<Rightarrow> int" where
  "indexOf [] e = - 1"
| "indexOf (x # xs) e =
     (if x \<noteq> JHole \<and> strict_equals x e then 0
      else (let r = indexOf xs e in if r = - 1 then - 1 else r + 1))"

section \<open>Array-aware deep merge\<close>

text \<open>\<open>emptyTarget\<close> of the merge library, and the \<open>Array.isArray(e) ? [] : emptyObject\<close> of \<open>arrayMerge\<close>.\<close>

definition emptyTarget :: "jv \<Rightarrow> jv" where
  "emptyTarget v = (if isArray v then JArr [] else JObj [])"

text \<open>Size bounds on the children of a node, for the termination of the merge.\<close>

lemma size_map_of_less:
  "map_of kvs k = Some v \<Longrightarrow> size v + 2 \<le> size_list (size_prod (\<lambda>x. 0) size) kvs"
  by (induction kvs) (auto split: if_splits)

lemma size_in_props_less:
  "(k, v) \<in> set kvs \<Longrightarrow> size v + 2 \<le> size_list (size_prod (\<lambda>x. 0) size) kvs"
  by (induction kvs) auto

lemma size_in_elems_less:
  "v \<in> set xs \<Longrightarrow> size (v::jv) + 1 \<le> size_list size xs"
  by (induction xs) auto

lemma size_jget_le: "size (jget t key) \<le> size t"
proof (cases t)
  case (JObj kvs)
  then show ?thesis
    using size_map_of_less [of kvs key]
    by (auto simp: jget_def split: option.splits)
qed (simp_all add: jget_def)

lemma size_arr_get_le: "size (arr_get xs i) \<le> size_list size xs"
  using size_in_elems_less [of "xs ! i" xs]
  by (auto simp: arr_get_def)

lemma size_own_props_less:
  "(k, v) \<in> set (own_props t) \<Longrightarrow> size v + 3 \<le> size t"
  using size_in_props_less [of k v]
  by (cases t) auto

lemma in_enumerate_elem: "(i, e) \<in> set (enumerate n xs) \<Longrightarrow> e \<in> set xs"
  by (auto simp: in_set_enumerate_eq)

lemma size_emptyTarget: "size (emptyTarget v) = 1"
  by (simp add: emptyTarget_def)

lemma isArray_emptyTarget: "isArray (emptyTarget v) = isArray v"
  by (simp add: emptyTarget_def)

lemma isArray_size_elems: "isArray t \<Longrightarrow> size t = size_list size (elems t) + 1"
  by (cases t) simp_all

text \<open>
  Modelled from the spec: the merge of plain mapping nodes is the \<open>deepmerge\<close>
  package, which the repository imports and does not contain. Section 4.4d:
  for plain mapping nodes, recursively merge by key; for array nodes the merge is
  the repository's own \<open>arrayMerge\<close>, passed as the \<open>arrayMerge\<close> option
  and translated from the source below. The package's entry point dispatches on
  the two node kinds (a source of the other kind than the target replaces it, as a
  clone), \<open>cloneUnlessOtherwiseSpecified\<close> deep-clones plain mappings and
  sequences only, and \<open>mergeObject\<close> copies the target's keys and then merges
  the source's keys over them. The merge is applied to error trees; a primitive
  source has no keys in this model.

  \<open>arrayMerge\<close> (source): \<open>destination\<close> starts as a copy of the target;
  \<open>forEach\<close> visits the non-empty slots of the source with their index.
\<close>

function deepmerge :: "jv \<Rightarrow> jv \<Rightarrow> jv"
  and cloneUnlessOtherwiseSpecified :: "jv \<Rightarrow> jv"
  and mergeObject :: "jv \<Rightarrow> jv \<Rightarrow> jv"
  and arrayMerge :: "jv list \<Rightarrow> jv list \<Rightarrow> jv list"
where
  "deepmerge target source =
     (if isArray source \<noteq> isArray target then cloneUnlessOtherwiseSpecified source
      else if isArray source then JArr (arrayMerge (elems target) (elems source))
      else mergeObject target source)"
| "cloneUnlessOtherwiseSpecified v =
     (if isMergeableObject v then deepmerge (emptyTarget v) v else v)"
| "mergeObject target source =
     JObj (fold
       (\<lambda>(key, sv) destination.
          if \<not> isMergeableObject sv \<or> \<not> truthy (jget target key)
          then obj_set destination key (cloneUnlessOtherwiseSpecified sv)
          else obj_set destination key (deepmerge (jget target key) sv))
       (own_props source)
       (fold
         (\<lambda>(key, tv) destination.
            obj_set destination key (cloneUnlessOtherwiseSpecified tv))
         (if isMergeableObject target then own_props target else [])
         []))"
| "arrayMerge target source =
     fold
       (\<lambda>(i, e) destination.
          if e = JHole then destination
          else if typeof_undefined (arr_get destination i) then
            arr_set destination i
              (if isMergeableObject e then deepmerge (emptyTarget e) e else e)
          else if isMergeableObject e then
            arr_set destination i (deepmerge (arr_get target i) e)
          else if indexOf target e = - 1 then destination @ [e]
          else destination)
       (enumerate 0 source)
       target"
  by pat_completeness auto

termination
proof (relation "inv_image (less_than <*lex*> less_than)
    (\<lambda>x. case x of
        Inl (Inl (t, s)) \<Rightarrow>
          (max 1 (size t) + size s, if isArray s \<noteq> isArray t then 3 else 1::nat)
      | Inl (Inr v) \<Rightarrow> (1 + size v, 2)
      | Inr (Inl (t, s)) \<Rightarrow> (max 1 (size t) + size s, 0)
      | Inr (Inr (ta, sa)) \<Rightarrow> (size_list size ta + 1 + (size_list size sa + 1), 0))",
    goal_cases)
  case 1
  show ?case by (intro wf_inv_image wf_lex_prod wf_less_than)
next
  case (2 target source)
  then show ?case by auto
next
  case (3 target source)
  then show ?case by (auto simp: isArray_size_elems)
next
  case (4 target source)
  then show ?case by auto
next
  case (5 v)
  then show ?case by (auto simp: size_emptyTarget isArray_emptyTarget)
next
  case (6 target source x xa xb)
  then show ?case
    using size_own_props_less [of xa xb target] by (auto split: if_splits)
next
  case (7 target source x xa xb)
  then show ?case
    using size_own_props_less [of xa xb source] by auto
next
  case (8 target source x xa xb)
  then show ?case
    using size_own_props_less [of xa xb source] size_jget_le [of target xa] by auto
next
  case (9 target source x xa xb)
  then show ?case
    using size_in_elems_less [of xb source] in_enumerate_elem [of xa xb 0 source]
    by (auto simp: size_emptyTarget isArray_emptyTarget)
next
  case (10 target source x xa xb)
  then show ?case
    using size_in_elems_less [of xb source] in_enumerate_elem [of xa xb 0 source]
      size_arr_get_le [of target xa]
    by auto
qed


declare deepmerge.simps [simp del] cloneUnlessOtherwiseSpecified.simps [simp del]
  mergeObject.simps [simp del] arrayMerge.simps [simp del]

text \<open>
  \<open>deepmerge.all(array, options)\<close>: the merge of the trees of the array, from
  left to right, starting from a new empty object.
\<close>

definition deepmerge_all :: "jv list \<Rightarrow> jv" where
  "deepmerge_all array = fold (\<lambda>next prev. deepmerge prev next) array (JObj [])"

text \<open>
  \<open>Object.keys\<close>: the own enumerable keys of an object, the indices of the
  non-empty slots of an array, the indices of a string, no key for a number or a
  boolean; \<open>undefined\<close> and \<open>null\<close> raise a TypeError (\<open>None\<close>).
\<close>

fun nat_to_string :: "nat \<Rightarrow> string" where
  "nat_to_string n =
     (if n < 10 then [char_of (48 + n)]
      else nat_to_string (n div 10) @ [char_of (48 + n mod 10)])"

declare nat_to_string.simps [simp del]

fun object_keys :: "jv \<Rightarrow> string list option" where
  "object_keys (JObj kvs) = Some (map fst kvs)"
| "object_keys (JArr xs) =
     Some (map (\<lambda>(i, e). nat_to_string i) (filter (\<lambda>(i, e). e \<noteq> JHole) (enumerate 0 xs)))"
| "object_keys (JStr s) = Some (map nat_to_string [0..<length s])"
| "object_keys (JBool b) = Some []"
| "object_keys (JNum n) = Some []"
| "object_keys JNaN = Some []"
| "object_keys v = None"

section \<open>The path-addressed store\<close>

text \<open>
  Modelled from the spec: \<open>getIn\<close>, \<open>setIn\<close> and
  \<open>setNestedObjectValues\<close> are imported from the repository's \<open>utils\<close>
  module, which is not among the sources. Section 4.1: \<open>get(root, path)\<close>
  returns \<open>undefined\<close> for missing intermediate segments and never throws;
  \<open>set(root, path, value)\<close> returns a new root with only the path's segments
  shallow-cloned; \<open>setAll(root, c)\<close> recursively replaces every leaf value with a
  constant. A path is a dot/bracket string such as \<open>address.city\<close> or
  \<open>items[0].name\<close> (glossary); a missing node on the way is created as an array
  when the segment that indexes it is a number and as an object otherwise.
\<close>

definition is_separator :: "char \<Rightarrow> bool" where
  "is_separator c = (c = CHR ''.'' \<or> c = CHR ''['' \<or> c = CHR '']'')"

fun split_path :: "string \<Rightarrow> string \<Rightarrow> string list" where
  "split_path cur [] = (if cur = [] then [] else [cur])"
| "split_path cur (c # cs) =
     (if is_separator c then (if cur = [] then [] else [cur]) @ split_path [] cs
      else split_path (cur @ [c]) cs)"

definition toPath :: "string \<Rightarrow> string list" where
  "toPath path = split_path [] path"

definition is_digit :: "char \<Rightarrow> bool" where
  "is_digit c = (48 \<le> (of_char c :: nat) \<and> (of_char c :: nat) \<le> 57)"

definition is_index :: "string \<Rightarrow> bool" where
  "is_index seg = (seg \<noteq> [] \<and> list_all is_digit seg)"

definition to_index :: "string \<Rightarrow> nat" where
  "to_index seg = fold (\<lambda>c n. 10 * n + (of_char c - 48)) seg 0"

text \<open>One step down a tree: the child of a node under a path segment.\<close>

fun child :: "jv \<Rightarrow> string \<Rightarrow> jv" where
  "child (JObj kvs) seg = jget (JObj kvs) seg"
| "child (JArr xs) seg =
     (if is_index seg
      then (if arr_get xs (to_index seg) = JHole then JUndef else arr_get xs (to_index seg))
      else JUndef)"
| "child v seg = JUndef"

fun getIn_path :: "jv \<Rightarrow> string list \<Rightarrow> jv" where
  "getIn_path root [] = root"
| "getIn_path root (seg # segs) = getIn_path (child root seg) segs"

definition getIn :: "jv \<Rightarrow> string \<Rightarrow> jv" where
  "getIn root path = getIn_path root (toPath path)"

text \<open>The shallow clone of a node with one child replaced.\<close>

fun with_child :: "jv \<Rightarrow> string \<Rightarrow> jv \<Rightarrow> jv" where
  "with_child (JObj kvs) seg v = JObj (obj_set kvs seg v)"
| "with_child (JArr xs) seg v =
     (if is_index seg then JArr (arr_set xs (to_index seg) v) else JObj [(seg, v)])"
| "with_child node seg v =
     (if is_index seg then JArr (arr_set [] (to_index seg) v) else JObj [(seg, v)])"

fun setIn_path :: "jv \<Rightarrow> string list \<Rightarrow> jv \<Rightarrow> jv" where
  "setIn_path root [] v = v"
| "setIn_path root (seg # segs) v =
     with_child root seg (setIn_path (child root seg) segs v)"

definition setIn :: "jv \<Rightarrow> string \<Rightarrow> jv \<Rightarrow> jv" where
  "setIn root path v = setIn_path root (toPath path) v"

fun setNestedObjectValues :: "jv \<Rightarrow> jv \<Rightarrow> jv" where
  "setNestedObjectValues (JObj kvs) c =
     JObj (map (\<lambda>(k, v). (k, setNestedObjectValues v c)) kvs)"
| "setNestedObjectValues (JArr xs) c =
     JArr (map (\<lambda>v. setNestedObjectValues v c) xs)"
| "setNestedObjectValues v c = c"

section \<open>Schema validation helpers\<close>

text \<open>
  The error a schema raises: a path, a message, and the list of the nested
  errors (each an error of the same shape) when all violations were collected.
\<close>

datatype yup_error =
  ValidationError (path: string) (message: string) (inner: "yup_error list")

text \<open>
  \<open>yupToFormErrors\<close>. The test \<open>!errors[err.path]\<close> reads the property of the
  accumulated tree whose key is the whole path string.
\<close>

definition yupToFormErrors :: "yup_error \<Rightarrow> jv" where
  "yupToFormErrors yupError =
     (if length (inner yupError) = 0
      then setIn (JObj []) (path yupError) (JStr (message yupError))
      else fold
        (\<lambda>err errors.
           if \<not> truthy (jget errors (path err))
           then setIn errors (path err) (JStr (message err))
           else errors)
        (inner yupError)
        (JObj []))"

text \<open>
  The options \<open>validateYupSchema\<close> passes to the schema, and the schema as the
  code uses it: an object with an identity and the two operations
  \<open>validate\<close> and \<open>validateSync\<close>, which accept the data (the asynchronous
  one through a promise, the synchronous one by returning) or reject it with an
  error.
\<close>

record validate_options =
  abortEarly :: bool
  context_ :: jv

datatype schema_outcome = Accepts jv | Violates yup_error

datatype ident = TheEmptyObject | Given nat | Fresh nat

record yup_schema =
  schema_id :: ident
  validate :: "jv \<Rightarrow> validate_options \<Rightarrow> schema_outcome"
  validateSync :: "jv \<Rightarrow> validate_options \<Rightarrow> schema_outcome"

text \<open>
  \<open>validateYupSchema\<close>. The loop works on two objects, the \<open>values\<close> it reads
  and the \<open>validateData\<close> it fills; the store holds both, so that what the loop
  writes is explicit. \<open>for (k in values)\<close> with the \<open>hasOwnProperty\<close> test
  visits the own enumerable keys.
\<close>

record yup_store =
  values_obj :: "(string \<times> jv) list"
  validateData :: "(string \<times> jv) list"

definition validateYupSchema_step :: "string \<Rightarrow> yup_store \<Rightarrow> yup_store" where
  "validateYupSchema_step key st =
     st\<lparr>validateData :=
          obj_set (validateData st) key
            (if jget (JObj (values_obj st)) key \<noteq> JStr []
             then jget (JObj (values_obj st)) key else JUndef)\<rparr>"

definition validateYupSchema_loop :: "(string \<times> jv) list \<Rightarrow> yup_store" where
  "validateYupSchema_loop vals =
     fold validateYupSchema_step (map fst vals) \<lparr>values_obj = vals, validateData = []\<rparr>"

definition validateYupSchema ::
  "(string \<times> jv) list \<Rightarrow> yup_schema \<Rightarrow> bool \<Rightarrow> jv \<Rightarrow> schema_outcome \<times> yup_store" where
  "validateYupSchema vals schema sync ctx =
     (let st = validateYupSchema_loop vals
      in ((if sync then validateSync schema else validate schema)
            (JObj (validateData st)) \<lparr>abortEarly = False, context_ = ctx\<rparr>,
          st))"

section \<open>The form holder\<close>

subsection \<open>References, promises and the external functions\<close>

text \<open>
  The validation caches compare references (\<open>===\<close>), so an object carries
  its identity next to its content. The code never writes into an object it has
  shared (the path-addressed store returns new roots), so an identity stands for
  one content. \<open>emptyObject\<close> is the one frozen empty object of the module;
  \<open>Given\<close> identities belong to the objects the caller supplies, \<open>Fresh\<close>
  ones to the objects and promises the holder creates.
\<close>

record obj =
  oid :: ident
  content :: jv

definition emptyObject :: obj where
  "emptyObject = \<lparr>oid = TheEmptyObject, content = JObj []\<rparr>"

text \<open>\<open>a === b\<close>: the same reference for objects, the same value for primitives.\<close>

definition strict_eq :: "obj \<Rightarrow> obj \<Rightarrow> bool" where
  "strict_eq a b =
     (if isMergeableObject (content a) \<and> isMergeableObject (content b) then oid a = oid b
      else if isMergeableObject (content a) \<or> isMergeableObject (content b) then False
      else strict_equals (content a) (content b))"

text \<open>
  What a promise settles to. The model fixes the outcome of a promise when the
  promise is created; the points where the code waits for it are separate steps.
\<close>

datatype 'a outcome = Fulfilled 'a | Rejected 'a

text \<open>
  A field-level validator returns a message (or a falsy value), throws, or
  returns a promise. The whole-form validator and the reset handler return a
  value or a promise, which has an identity.
\<close>

datatype validator_return = Returns jv | Throws jv | ReturnsPromise "jv outcome"

datatype maybe_promise = NotPromise obj | IsPromise ident "obj outcome"

text \<open>
  \<open>PromiseOrValue\<close>. A field-level result is a message now or later. The
  result of a validation source is an error tree or a promise of one; the
  promises the three sources hand out never reject (each is the \<open>then\<close> of a
  handler pair), so a promise is its identity and the tree it fulfils with.
\<close>

datatype field_result = Now jv | Later jv

fun isPromise :: "field_result \<Rightarrow> bool" where
  "isPromise (Later x) = True"
| "isPromise (Now x) = False"

fun field_message :: "field_result \<Rightarrow> jv" where
  "field_message (Later x) = x"
| "field_message (Now x) = x"

datatype result = Value obj | Promise ident obj

fun same_ref :: "result \<Rightarrow> result \<Rightarrow> bool" where
  "same_ref (Value a) (Value b) = strict_eq a b"
| "same_ref (Promise p a) (Promise q b) = (p = q)"
| "same_ref r s = False"

text \<open>What \<open>Promise.all\<close> delivers for an entry.\<close>

fun settled :: "result \<Rightarrow> obj" where
  "settled (Value a) = a"
| "settled (Promise p a) = a"

text \<open>
  \<open>key.every((el, i) => el === last.key[i])\<close>: every element of the current key
  is the same reference as the stored element at its index.
\<close>

definition every_same :: "result list \<Rightarrow> result list \<Rightarrow> bool" where
  "every_same key stored =
     (length key \<le> length stored \<and> list_all2 same_ref key (take (length key) stored))"

subsection \<open>Configuration and state\<close>

datatype schema_prop = SchemaObject yup_schema | SchemaFactory "nat \<Rightarrow> yup_schema"

text \<open>
  The props. \<open>validationSchema\<close> is a schema or a zero-argument factory; a
  factory may build a new schema at each call, so it is a function of the number
  of calls made so far. \<open>onSubmit\<close> is required and its result unused: a call
  of it is an entry of the holder's call trace. \<open>isInitialValid\<close> is a boolean
  or a function of the props (of the other props, in this model).
\<close>

record formik_config =
  initialValues :: obj
  validate :: "(obj \<Rightarrow> maybe_promise) option"
  validationSchema :: "schema_prop option"
  onReset :: "(obj \<Rightarrow> maybe_promise) option"
  validateOnChange :: bool
  validateOnBlur :: bool
  enableReinitialize :: bool

datatype initial_valid = IsBoolean bool | IsFunction "formik_config \<Rightarrow> bool"

record formik_props = formik_config +
  isInitialValid :: initial_valid

record formik_state =
  "values" :: obj
  errors :: obj
  touched :: obj
  status :: jv
  error :: jv
  isSubmitting :: bool
  isValidating :: bool
  submitCount :: nat

text \<open>The calls the holder makes to functions it was given, in order.\<close>

datatype call =
    FieldValidate string jv
  | SchemaValidate ident jv validate_options
  | ValidateHandler obj
  | OnSubmit obj "string list"
  | OnReset obj "string list"

text \<open>
  The life of the component in the rendering library, which calls
  \<open>componentDidMount\<close> once the component is mounted and
  \<open>componentWillUnmount\<close> when it unmounts it. The liveness flag
  \<open>this.didMount\<close> is false in the constructor, set by the first and cleared
  by the second, so it is true exactly of a mounted component. Once the
  component is unmounted the library drops every \<open>setState\<close> on it.
\<close>

datatype lifecycle = Constructed | Mounted | Unmounted

text \<open>
  The component instance. \<open>runValidationTask\<close> holds the validation requests
  handed to the throttled runner, \<open>allocated\<close> counts the identities given out,
  \<open>schemaFactoryCalls\<close> the calls of a schema factory.
\<close>

record formik =
  props :: formik_props
  state :: formik_state
  initialValues :: obj
  lifecycle :: lifecycle
  fields' :: "(string \<times> (jv \<Rightarrow> validator_return) option) list"
  lastValidationResults :: "(result list \<times> obj) option"
  lastYupValidationResult :: "((ident \<times> obj) \<times> result) option"
  lastValidateHandlerResult :: "(ident \<times> result) option"
  runValidationTask :: "obj list"
  allocated :: nat
  schemaFactoryCalls :: nat
  calls :: "call list"

definition didMount :: "formik \<Rightarrow> bool" where
  "didMount h = (lifecycle h = Mounted)"

text \<open>
  \<open>this.setState\<close>, inherited from the rendering library: the update is
  applied to the state, unless the component has been unmounted, when the update
  is dropped and its callback never runs. \<open>setState_callback\<close> is the call with
  a callback, which runs after the write. \<open>setState_updater\<close> is the call with
  an updater made by \<open>getStateUpdater\<close>, which builds a new tree (with a new
  identity) from the previous state when the update is applied.
\<close>

definition setState :: "(formik_state \<Rightarrow> formik_state) \<Rightarrow> formik \<Rightarrow> formik" where
  "setState updater h =
     (if lifecycle h = Unmounted then h else h\<lparr>state := updater (state h)\<rparr>)"

definition setState_callback ::
  "(formik_state \<Rightarrow> formik_state) \<Rightarrow> (formik \<Rightarrow> formik) \<Rightarrow> formik \<Rightarrow> formik" where
  "setState_callback updater callback h =
     (if lifecycle h = Unmounted then h else callback (h\<lparr>state := updater (state h)\<rparr>))"

definition setState_updater ::
  "(formik_state \<Rightarrow> ident \<Rightarrow> formik_state) \<Rightarrow> (formik \<Rightarrow> formik) \<Rightarrow> formik \<Rightarrow> formik" where
  "setState_updater updater callback h =
     (if lifecycle h = Unmounted then h
      else callback (h\<lparr>state := updater (state h) (Fresh (allocated h)),
                       allocated := Suc (allocated h)\<rparr>))"

definition new_object :: "jv \<Rightarrow> formik \<Rightarrow> obj \<times> formik" where
  "new_object c h =
     (\<lparr>oid = Fresh (allocated h), content = c\<rparr>, h\<lparr>allocated := Suc (allocated h)\<rparr>)"

definition new_promise :: "formik \<Rightarrow> ident \<times> formik" where
  "new_promise h = (Fresh (allocated h), h\<lparr>allocated := Suc (allocated h)\<rparr>)"

definition called :: "call \<Rightarrow> formik \<Rightarrow> formik" where
  "called c h = h\<lparr>calls := calls h @ [c]\<rparr>"

text \<open>The constructor, \<open>componentDidMount\<close> and \<open>componentWillUnmount\<close>.\<close>

definition constructor :: "formik_props \<Rightarrow> formik" where
  "constructor p =
     \<lparr>props = p,
      state = \<lparr>values =
                 (if truthy (content (formik_config.initialValues p))
                  then formik_config.initialValues p else emptyObject),
               errors = emptyObject, touched = emptyObject, status = JUndef,
               error = JUndef, isSubmitting = False, isValidating = False,
               submitCount = 0\<rparr>,
      initialValues =
        (if truthy (content (formik_config.initialValues p))
         then formik_config.initialValues p else emptyObject),
      lifecycle = Constructed, fields' = [], lastValidationResults = None,
      lastYupValidationResult = None, lastValidateHandlerResult = None,
      runValidationTask = [], allocated = 0, schemaFactoryCalls = 0, calls = []\<rparr>"

definition componentDidMount :: "formik \<Rightarrow> formik" where
  "componentDidMount h = h\<lparr>lifecycle := Mounted\<rparr>"

definition componentWillUnmount :: "formik \<Rightarrow> formik" where
  "componentWillUnmount h = h\<lparr>lifecycle := Unmounted\<rparr>"

text \<open>\<open>registerField\<close> and \<open>unregisterField\<close>: the last registration of a name wins.\<close>

fun fields_set ::
  "(string \<times> (jv \<Rightarrow> validator_return) option) list \<Rightarrow> string \<Rightarrow>
   (jv \<Rightarrow> validator_return) option \<Rightarrow> (string \<times> (jv \<Rightarrow> validator_return) option) list" where
  "fields_set [] name component = [(name, component)]"
| "fields_set ((n, c) # fs) name component =
     (if n = name then (n, component) # fs else (n, c) # fields_set fs name component)"

definition registerField :: "string \<Rightarrow> (jv \<Rightarrow> validator_return) option \<Rightarrow> formik \<Rightarrow> formik" where
  "registerField name component h = h\<lparr>fields' := fields_set (fields' h) name component\<rparr>"

definition unregisterField :: "string \<Rightarrow> formik \<Rightarrow> formik" where
  "unregisterField name h = h\<lparr>fields' := filter (\<lambda>(n, c). n \<noteq> name) (fields' h)\<rparr>"

text \<open>
  \<open>getFormikActions\<close>: the Action Facade, an object of the holder's bound
  operations; the model names them.
\<close>

definition getFormikActions :: "string list" where
  "getFormikActions =
     [''resetForm'', ''submitForm'', ''validateForm'', ''validateField'', ''setError'',
      ''setErrors'', ''setFieldError'', ''setFieldTouched'', ''setFieldValue'',
      ''setStatus'', ''setSubmitting'', ''setTouched'', ''setValues'', ''setFormikState'']"

subsection \<open>The three validation sources\<close>

text \<open>
  \<open>runSingleFieldLevelValidation\<close>. A call of \<open>validate\<close> on a field
  that is not registered, or has no validator, raises a TypeError inside the
  \<open>try\<close>, and the \<open>catch\<close> returns it.
\<close>

definition typeError :: jv where
  "typeError = JObj [(''name'', JStr ''TypeError'')]"

definition runSingleFieldLevelValidation ::
  "string \<Rightarrow> jv \<Rightarrow> formik \<Rightarrow> field_result \<times> formik" where
  "runSingleFieldLevelValidation field v h =
     (case map_of (fields' h) field of
        Some (Some validator) \<Rightarrow>
          (case validator v of
             Returns r \<Rightarrow> Now r
           | Throws e \<Rightarrow> Now e
           | ReturnsPromise (Fulfilled x) \<Rightarrow> Later x
           | ReturnsPromise (Rejected e) \<Rightarrow> Later e,
           called (FieldValidate field v) h)
      | _ \<Rightarrow> (Now typeError, h))"

text \<open>\<open>runFieldLevelValidations\<close>: the keys that have a validator function.\<close>

definition fieldKeysWithValidation :: "formik \<Rightarrow> string list" where
  "fieldKeysWithValidation h =
     filter (\<lambda>f. case map_of (fields' h) f of Some (Some validator) \<Rightarrow> True | _ \<Rightarrow> False)
       (map fst (fields' h))"

text \<open>The \<open>map\<close> over the keys, which calls the validators in order.\<close>

fun fieldValidations :: "jv \<Rightarrow> string list \<Rightarrow> formik \<Rightarrow> field_result list \<times> formik" where
  "fieldValidations vals [] h = ([], h)"
| "fieldValidations vals (f # fs) h =
     (let (r, h1) = runSingleFieldLevelValidation f (getIn vals f) h;
          (rs, h2) = fieldValidations vals fs h1
      in (r # rs, h2))"

text \<open>
  The \<open>reduce\<close> of the callback, over the messages paired with their keys: a
  truthy message is set at its key in a new tree, from \<open>emptyObject\<close>.
\<close>

fun fieldErrors :: "(jv \<times> string) list \<Rightarrow> obj \<Rightarrow> formik \<Rightarrow> obj \<times> formik" where
  "fieldErrors [] prev h = (prev, h)"
| "fieldErrors ((cur, key) # rest) prev h =
     (if truthy cur
      then (let (next, h1) = new_object (setIn (content prev) key cur) h
            in fieldErrors rest next h1)
      else fieldErrors rest prev h)"

definition runFieldLevelValidations :: "obj \<Rightarrow> formik \<Rightarrow> result \<times> formik" where
  "runFieldLevelValidations vals h =
     (let keys = fieldKeysWithValidation h;
          (validations, h1) = fieldValidations (content vals) keys h;
          (errs, h2) = fieldErrors (zip (map field_message validations) keys) emptyObject h1
      in if list_ex isPromise validations
         then (let (p, h3) = new_promise h2 in (Promise p errs, h3))
         else (Value errs, h2))"

text \<open>
  \<open>runValidateHandler\<close>, for the handler \<open>this.props.validate\<close> that
  \<open>runValidations\<close> has found configured. The handler is called first; the
  cache is keyed on the promise it returns.
\<close>

definition runValidateHandler ::
  "(obj \<Rightarrow> maybe_promise) \<Rightarrow> obj \<Rightarrow> formik \<Rightarrow> result \<times> formik" where
  "runValidateHandler handler vals h =
     (let h1 = called (ValidateHandler vals) h in
      case handler vals of
        NotPromise maybePromisedErrors \<Rightarrow>
          (if content maybePromisedErrors = JUndef then (Value emptyObject, h1)
           else (Value maybePromisedErrors, h1))
      | IsPromise p out \<Rightarrow>
          (let renew =
             (let (q, h2) = new_promise h1;
                  r = Promise q (case out of Fulfilled x \<Rightarrow> emptyObject | Rejected es \<Rightarrow> es)
              in (r, h2\<lparr>lastValidateHandlerResult := Some (p, r)\<rparr>))
           in case lastValidateHandlerResult h1 of
                None \<Rightarrow> renew
              | Some (key, r) \<Rightarrow> if key \<noteq> p then renew else (r, h1)))"

text \<open>
  \<open>runValidationSchema\<close>, for the \<open>validationSchema\<close> that
  \<open>runValidations\<close> has found configured. On a cache miss the schema's
  \<open>validate\<close> is called through \<open>validateYupSchema\<close>, and the promise stored
  is the \<open>then\<close> of its result: \<open>emptyObject\<close> on success, the converted
  error on failure.
\<close>

definition resolve_schema :: "schema_prop \<Rightarrow> formik \<Rightarrow> yup_schema \<times> formik" where
  "resolve_schema sp h =
     (case sp of
        SchemaObject schema \<Rightarrow> (schema, h)
      | SchemaFactory f \<Rightarrow>
          (f (schemaFactoryCalls h), h\<lparr>schemaFactoryCalls := Suc (schemaFactoryCalls h)\<rparr>))"

definition runValidationSchema_miss :: "yup_schema \<Rightarrow> obj \<Rightarrow> formik \<Rightarrow> result \<times> formik" where
  "runValidationSchema_miss schema vals h =
     (let (out, st) = validateYupSchema (own_props (content vals)) schema False (content emptyObject);
          h1 = called (SchemaValidate (schema_id schema) (JObj (validateData st))
                 \<lparr>abortEarly = False, context_ = content emptyObject\<rparr>) h;
          (errs, h2) =
            (case out of
               Accepts x \<Rightarrow> (emptyObject, h1)
             | Violates err \<Rightarrow> new_object (yupToFormErrors err) h1);
          (p, h3) = new_promise h2;
          r = Promise p errs
      in (r, h3\<lparr>lastYupValidationResult := Some ((schema_id schema, vals), r)\<rparr>))"

definition runValidationSchema :: "schema_prop \<Rightarrow> obj \<Rightarrow> formik \<Rightarrow> result \<times> formik" where
  "runValidationSchema sp vals h =
     (let (schema, h1) = resolve_schema sp h in
      case lastYupValidationResult h1 of
        None \<Rightarrow> runValidationSchema_miss schema vals h1
      | Some ((s, v), r) \<Rightarrow>
          if schema_id schema = s \<and> strict_eq vals v then (r, h1)
          else runValidationSchema_miss schema vals h1)"

subsection \<open>The validation orchestrator\<close>

text \<open>The three results, built in the order of the array literal.\<close>

definition validationResults :: "obj \<Rightarrow> formik \<Rightarrow> result list \<times> formik" where
  "validationResults vals h =
     (let (r1, h1) = runFieldLevelValidations vals h;
          (r2, h2) =
            (case validationSchema (props h1) of
               Some sp \<Rightarrow> runValidationSchema sp vals h1
             | None \<Rightarrow> (Value emptyObject, h1));
          (r3, h3) =
            (case formik_config.validate (props h2) of
               Some handler \<Rightarrow> runValidateHandler handler vals h2
             | None \<Rightarrow> (Value emptyObject, h2))
      in ([r1, r2, r3], h3))"

text \<open>
  The producer that \<open>runValidations\<close> enqueues, up to the point where it
  returns: either the cached merge, already resolved, or the wait for the three
  results.
\<close>

datatype validation_run = Resolved obj | Waiting "result list"

definition runValidations_start :: "obj \<Rightarrow> formik \<Rightarrow> validation_run \<times> formik" where
  "runValidations_start vals h =
     (let (results, h1) = validationResults vals h;
          miss = (Waiting results, setState (\<lambda>s. s\<lparr>isValidating := True\<rparr>) h1)
      in case lastValidationResults h1 of
           None \<Rightarrow> miss
         | Some (key, combinedErrors) \<Rightarrow>
             if every_same results key
             then (Resolved combinedErrors,
                   if didMount h1
                   then setState (\<lambda>s. s\<lparr>isValidating := False, errors := combinedErrors\<rparr>) h1
                   else h1)
             else miss)"

text \<open>The continuation of \<open>Promise.all(validationResults)\<close>.\<close>

definition runValidations_settle :: "result list \<Rightarrow> formik \<Rightarrow> obj \<times> formik" where
  "runValidations_settle results h =
     (let (combinedErrors, h1) = new_object (deepmerge_all (map (content \<circ> settled) results)) h;
          h2 = (if didMount h1
                then setState (\<lambda>s. s\<lparr>isValidating := False, errors := combinedErrors\<rparr>) h1
                else h1)
      in (combinedErrors, h2\<lparr>lastValidationResults := Some (results, combinedErrors)\<rparr>))"

text \<open>
  Modelled from the spec: \<open>ThrottledAction\<close> is imported from the
  repository's \<open>utils\<close> module, which is not among the sources. Section 4.3:
  \<open>enqueue(producer)\<close> starts the producer (on the next tick) if no computation
  is active, and otherwise queues the request, of which only the latest is
  started when the active one finishes; every caller receives a result.
  \<open>enqueue\<close> records a request in the runner; \<open>runValidations\<close> is one
  request run to its end with no other step of the holder in between, which is
  how two requests of which the second does not overtake the first are served.
\<close>

definition enqueue :: "obj \<Rightarrow> formik \<Rightarrow> formik" where
  "enqueue vals h = h\<lparr>runValidationTask := runValidationTask h @ [vals]\<rparr>"

definition runValidations :: "obj \<Rightarrow> formik \<Rightarrow> obj \<times> formik" where
  "runValidations vals h =
     (case runValidations_start vals h of
        (Resolved combinedErrors, h1) \<Rightarrow> (combinedErrors, h1)
      | (Waiting results, h1) \<Rightarrow> runValidations_settle results h1)"

subsection \<open>Submission and reset\<close>

datatype js_error = TypeError

text \<open>
  \<open>submitForm\<close>: the synchronous part, and the continuation that receives the
  merged error tree (\<open>Object.keys\<close> of \<open>undefined\<close> or \<open>null\<close> raises).
\<close>

definition executeSubmit :: "formik \<Rightarrow> formik" where
  "executeSubmit h = called (OnSubmit (values (state h)) getFormikActions) h"

definition submitForm_start :: "formik \<Rightarrow> formik" where
  "submitForm_start h =
     (let (t, h1) = new_object (setNestedObjectValues (content (values (state h))) (JBool True)) h
      in setState
           (\<lambda>prevState. prevState\<lparr>touched := t, isSubmitting := True,
              submitCount := submitCount prevState + 1\<rparr>) h1)"

definition submitForm_then :: "obj \<Rightarrow> formik \<Rightarrow> js_error + formik" where
  "submitForm_then combinedErrors h =
     (case object_keys (content combinedErrors) of
        None \<Rightarrow> Inl TypeError
      | Some keys \<Rightarrow>
          (let isValid = (length keys = 0)
           in if isValid then Inr (executeSubmit h)
              else if didMount h then Inr (setState (\<lambda>s. s\<lparr>isSubmitting := False\<rparr>) h)
              else Inr h))"

definition submitForm :: "formik \<Rightarrow> js_error + formik" where
  "submitForm h =
     (let h1 = submitForm_start h;
          (combinedErrors, h2) = runValidations (values (state h1)) h1
      in submitForm_then combinedErrors h2)"

text \<open>\<open>resetForm(nextValues?)\<close>; \<open>None\<close> is the call with no argument.\<close>

definition resetForm :: "obj option \<Rightarrow> formik \<Rightarrow> formik" where
  "resetForm nextValues h =
     (let vals =
            (case nextValues of
               Some nv \<Rightarrow> if truthy (content nv) then nv else formik_config.initialValues (props h)
             | None \<Rightarrow> formik_config.initialValues (props h))
      in setState
           (\<lambda>s. s\<lparr>isSubmitting := False, isValidating := False, errors := emptyObject,
              touched := emptyObject, error := JUndef, status := JUndef, values := vals,
              submitCount := 0\<rparr>)
           (h\<lparr>initialValues := vals\<rparr>))"

text \<open>
  \<open>handleReset\<close>: the synchronous part returns the promise of the reset
  handler when there is one to wait for, and \<open>handleReset_then\<close> is what
  \<open>then(this.resetForm)\<close> does when that promise settles: the fulfilment value
  is the argument of \<open>resetForm\<close>, and a rejection has no handler.
\<close>

definition handleReset :: "formik \<Rightarrow> formik \<times> (obj outcome) option" where
  "handleReset h =
     (case onReset (props h) of
        Some handler \<Rightarrow>
          (let h1 = called (OnReset (values (state h)) getFormikActions) h in
           case handler (values (state h)) of
             IsPromise p out \<Rightarrow> (h1, Some out)
           | NotPromise r \<Rightarrow> (resetForm None h1, None))
      | None \<Rightarrow> (resetForm None h, None))"

definition handleReset_then :: "obj outcome \<Rightarrow> formik \<Rightarrow> formik" where
  "handleReset_then out h =
     (case out of
        Fulfilled v \<Rightarrow> resetForm (Some v) h
      | Rejected e \<Rightarrow> h)"

subsection \<open>The field mutation setters\<close>

text \<open>
  Modelled from the spec: \<open>getStateUpdater(path, value)\<close> is imported from
  the repository's \<open>utils\<close> module, which is not among the sources. Section
  4.5: the setters write to the respective tree via the path-addressed store;
  the updater for \<open>values.field\<close> sets the field in the \<open>values\<close> tree, and
  likewise for \<open>touched\<close>. The callback of \<open>setState\<close> runs after the write
  and hands the validation to the throttled runner. Of the four setters only
  \<open>setFieldValue\<close> tests \<open>didMount\<close> itself.
\<close>

definition getStateUpdater_values :: "string \<Rightarrow> jv \<Rightarrow> formik_state \<Rightarrow> ident \<Rightarrow> formik_state" where
  "getStateUpdater_values field v s i =
     s\<lparr>values := \<lparr>oid = i, content = setIn (content (values s)) field v\<rparr>\<rparr>"

definition getStateUpdater_touched :: "string \<Rightarrow> jv \<Rightarrow> formik_state \<Rightarrow> ident \<Rightarrow> formik_state" where
  "getStateUpdater_touched field v s i =
     s\<lparr>touched := \<lparr>oid = i, content = setIn (content (touched s)) field v\<rparr>\<rparr>"

definition setFieldValue :: "string \<Rightarrow> jv \<Rightarrow> bool \<Rightarrow> formik \<Rightarrow> formik" where
  "setFieldValue field v shouldValidate h =
     (if didMount h
      then setState_updater (getStateUpdater_values field v)
             (\<lambda>h1. if validateOnChange (props h1) \<and> shouldValidate
                   then enqueue (values (state h1)) h1 else h1)
             h
      else h)"

definition setValues :: "obj \<Rightarrow> formik \<Rightarrow> formik" where
  "setValues vals h =
     setState_callback (\<lambda>s. s\<lparr>values := vals\<rparr>)
       (\<lambda>h1. if validateOnChange (props h1) then enqueue vals h1 else h1)
       h"

definition setTouched :: "obj \<Rightarrow> formik \<Rightarrow> formik" where
  "setTouched t h =
     setState_callback (\<lambda>s. s\<lparr>touched := t\<rparr>)
       (\<lambda>h1. if validateOnBlur (props h1) then enqueue (values (state h1)) h1 else h1)
       h"

definition setFieldTouched :: "string \<Rightarrow> bool \<Rightarrow> bool \<Rightarrow> formik \<Rightarrow> formik" where
  "setFieldTouched field t shouldValidate h =
     setState_updater (getStateUpdater_touched field (JBool t))
       (\<lambda>h1. if validateOnBlur (props h1) \<and> shouldValidate
             then enqueue (values (state h1)) h1 else h1)
       h"

subsection \<open>The computed props\<close>

text \<open>
  \<open>getFormikComputedProps\<close>. \<open>isEqual\<close> is the imported deep comparison,
  a parameter here. \<open>isValid\<close> is the value of the conditional expression:
  \<open>errors && keys.length === 0\<close> is \<open>errors\<close> itself when \<open>errors\<close> is falsy.
\<close>

record computed_props =
  dirty :: bool
  isValid :: jv
  computed_initialValues :: obj

definition getFormikComputedProps :: "(jv \<Rightarrow> jv \<Rightarrow> bool) \<Rightarrow> formik \<Rightarrow> computed_props" where
  "getFormikComputedProps isEqual h =
     (let d = (\<not> isEqual (content (initialValues h)) (content (values (state h))))
      in \<lparr>dirty = d,
          isValid =
            (if d
             then (if truthy (content (errors (state h)))
                   then (case object_keys (content (errors (state h))) of
                           Some keys \<Rightarrow> JBool (length keys = 0)
                         | None \<Rightarrow> JUndef)
                   else content (errors (state h)))
             else (case isInitialValid (props h) of
                     IsFunction f \<Rightarrow> JBool (f (formik_config.truncate (props h)))
                   | IsBoolean b \<Rightarrow> JBool b)),
          computed_initialValues = initialValues h\<rparr>)"

text \<open>
  A well-formed tree: the keys of every object are distinct, as the keys of a
  JavaScript object are.
\<close>

fun distinct_keys :: "jv \<Rightarrow> bool" where
  "distinct_keys (JObj kvs) = (distinct (map fst kvs) \<and> list_all (\<lambda>p. distinct_keys (snd p)) kvs)"
| "distinct_keys (JArr xs) = list_all distinct_keys xs"
| "distinct_keys v = True"

text \<open>A tree none of whose arrays has \<open>NaN\<close> as an element.\<close>

fun no_NaN_element :: "jv \<Rightarrow> bool" where
  "no_NaN_element (JObj kvs) = list_all (\<lambda>p. no_NaN_element (snd p)) kvs"
| "no_NaN_element (JArr xs) = list_all (\<lambda>x. x \<noteq> JNaN \<and> no_NaN_element x) xs"
| "no_NaN_element v = True"


section \<open>Predicates of the statements and example forms\<close>

text \<open>
  A form with one field \<open>name\<close>, empty at first, whose field-level validator
  requires a value; the same form with other values, with a reset handler that
  returns a promise, with a schema and a whole-form validator.
\<close>

definition example_props :: formik_props where
  "example_props =
     \<lparr>formik_config.initialValues = \<lparr>oid = Given 1, content = JObj [(''name'', JStr '''')]\<rparr>,
      validate = None, validationSchema = None, onReset = None,
      validateOnChange = True, validateOnBlur = True, enableReinitialize = False,
      isInitialValid = IsBoolean False\<rparr>"

definition required :: "jv \<Rightarrow> validator_return" where
  "required v = (if v = JStr [] then Returns (JStr ''Required'') else Returns JUndef)"

definition example_form :: formik where
  "example_form =
     registerField ''name'' (Some required) (componentDidMount (constructor example_props))"

definition late_values :: obj where
  "late_values = \<lparr>oid = Given 2, content = JObj [(''name'', JStr ''late'')]\<rparr>"

definition handler_values :: obj where
  "handler_values = \<lparr>oid = Given 3, content = JObj [(''name'', JStr ''from handler'')]\<rparr>"

definition reset_form :: formik where
  "reset_form =
     componentDidMount (constructor
       (example_props\<lparr>onReset := Some (\<lambda>v. IsPromise (Given 4) (Fulfilled handler_values))\<rparr>))"

definition echo_schema :: yup_schema where
  "echo_schema =
     \<lparr>schema_id = Given 5,
      validate = (\<lambda>d opts. if abortEarly opts then Violates (ValidationError [] ''aborts early'' []) else Accepts d),
      validateSync = (\<lambda>d opts. Accepts d)\<rparr>"

definition mutated_form :: formik where
  "mutated_form =
     setState (\<lambda>s. s\<lparr>errors := handler_values, status := JStr ''busy'', isSubmitting := True,
         isValidating := True, submitCount := 3\<rparr>)
       (setTouched late_values (setValues late_values example_form))"

text \<open>
  The calls of the external submit handler in a call trace, the calls the field
  validators and the whole-form validator account for in one run, and what a
  run leaves alone: \<open>validation_frame h h'\<close> holds when \<open>h'\<close> differs from
  \<open>h\<close> only in the caches of the sources, the counters, and calls other than
  those of the submit handler.
\<close>

fun is_OnSubmit :: "call \<Rightarrow> bool" where
  "is_OnSubmit (OnSubmit v a) = True"
| "is_OnSubmit c = False"

definition field_calls :: "jv \<Rightarrow> formik \<Rightarrow> call list" where
  "field_calls vals h = map (\<lambda>f. FieldValidate f (getIn vals f)) (fieldKeysWithValidation h)"

definition validation_frame :: "formik \<Rightarrow> formik \<Rightarrow> bool" where
  "validation_frame h h' \<longleftrightarrow>
     props h' = props h \<and> state h' = state h \<and> initialValues h' = initialValues h \<and>
     lifecycle h' = lifecycle h \<and> fields' h' = fields' h \<and>
     lastValidationResults h' = lastValidationResults h \<and>
     runValidationTask h' = runValidationTask h \<and>
     (\<exists>cs. calls h' = calls h @ cs \<and> list_all (\<lambda>c. \<not> is_OnSubmit c) cs)"

definition filled_form :: formik where
  "filled_form = setValues late_values example_form"

definition handler_calls :: "obj \<Rightarrow> formik \<Rightarrow> call list" where
  "handler_calls vals h =
     (case formik_config.validate (props h) of
        Some handler \<Rightarrow> [ValidateHandler vals]
      | None \<Rightarrow> [])"

text \<open>
  The schema object the holder resolves at its next validation: the configured
  schema, or what the factory returns at its next call. The schema cache of a
  holder answers for a schema and values when there is no schema, or the schema
  and the values are the key of the stored result.
\<close>

definition resolved_schema :: "formik \<Rightarrow> ident option" where
  "resolved_schema h =
     (case validationSchema (props h) of
        None \<Rightarrow> None
      | Some (SchemaObject schema) \<Rightarrow> Some (schema_id schema)
      | Some (SchemaFactory f) \<Rightarrow> Some (schema_id (f (schemaFactoryCalls h))))"

definition schema_cached :: "ident option \<Rightarrow> obj \<Rightarrow> formik \<Rightarrow> bool" where
  "schema_cached schema vals h \<longleftrightarrow>
     (case schema of
        None \<Rightarrow> True
      | Some sid \<Rightarrow>
          (case lastYupValidationResult h of
             Some ((i, v), r) \<Rightarrow> i = sid \<and> strict_eq vals v
           | None \<Rightarrow> False))"

text \<open>
  Two runs of the orchestrator on the same values reference, the second on the
  holder the first has left.
\<close>

definition first_run :: "obj \<times> formik" where
  "first_run = runValidations (values (state example_form)) example_form"

definition second_run :: "obj \<times> formik" where
  "second_run = runValidations (values (state example_form)) (snd first_run)"

definition undefined_value :: obj where
  "undefined_value = \<lparr>oid = Given 6, content = JUndef\<rparr>"

definition factory_form :: formik where
  "factory_form =
     registerField ''name'' (Some required)
       (componentDidMount (constructor
          (example_props\<lparr>formik_config.initialValues := late_values,
             validationSchema := Some (SchemaFactory (\<lambda>n. echo_schema)),
             formik_config.validate := Some (\<lambda>v. NotPromise undefined_value)\<rparr>)))"

text \<open>
  A submission whose holder is torn down while the validation is pending: the
  producer has returned, \<open>componentWillUnmount\<close> runs, then the continuation of
  \<open>Promise.all\<close>.
\<close>

definition torn_down_run :: "obj \<times> formik" where
  "torn_down_run =
     (case runValidations_start (values (state (submitForm_start filled_form)))
             (submitForm_start filled_form) of
        (Waiting results, h) \<Rightarrow> runValidations_settle results (componentWillUnmount h)
      | (Resolved combinedErrors, h) \<Rightarrow> (combinedErrors, componentWillUnmount h))"

section \<open>Properties of the deep merge\<close>

lemma fold_id: "(\<And>x. x \<in> set l \<Longrightarrow> f x d = d) \<Longrightarrow> fold f l d = d"
  by (induction l) auto

lemma indexOf_ge: "- 1 \<le> indexOf xs e"
  by (induction xs) (auto simp: Let_def)

lemma indexOf_found:
  "e \<in> set xs \<Longrightarrow> e \<noteq> JHole \<Longrightarrow> e \<noteq> JNaN \<Longrightarrow> indexOf xs e \<noteq> - 1"
proof (induction xs)
  case Nil
  then show ?case by simp
next
  case (Cons x xs)
  with indexOf_ge [of xs e] show ?case by (auto simp: Let_def strict_equals_def)
qed

lemma keys_obj_set:
  "map fst (obj_set d key v) = (if key \<in> set (map fst d) then map fst d else map fst d @ [key])"
  by (induction d) force+

lemma map_upd_absent:
  "key \<notin> set (map fst d) \<Longrightarrow> map (\<lambda>(k, x). (k, if k = key then v else x)) d = d"
  by (induction d) auto

lemma obj_set_map:
  "key \<in> set (map fst d) \<Longrightarrow> distinct (map fst d) \<Longrightarrow>
   obj_set d key v = map (\<lambda>(k, x). (k, if k = key then v else x)) d"
proof (induction d)
  case Nil
  then show ?case by simp
next
  case (Cons p d)
  obtain k x where p: "p = (k, x)" by (cases p)
  show ?case
  proof (cases "k = key")
    case True
    then have "key \<notin> set (map fst d)" using Cons.prems p by auto
    then show ?thesis using True p by (simp add: map_upd_absent)
  next
    case False
    then show ?thesis using Cons p by auto
  qed
qed

lemma fold_obj_set_over:
  "distinct (map fst d) \<Longrightarrow> distinct (map fst l) \<Longrightarrow> set (map fst l) \<subseteq> set (map fst d) \<Longrightarrow>
   fold (\<lambda>(key, v) destination. obj_set destination key (g key v)) l d =
   map (\<lambda>(k, x). (k, case map_of l k of Some v \<Rightarrow> g k v | None \<Rightarrow> x)) d"
proof (induction l arbitrary: d)
  case Nil
  then show ?case by simp
next
  case (Cons p l)
  obtain k v where p: "p = (k, v)" by (cases p)
  have kd: "k \<in> set (map fst d)" using Cons.prems p by auto
  have kl: "map_of l k = None" using Cons.prems p by (auto simp: map_of_eq_None_iff)
  have keys: "map fst (obj_set d k (g k v)) = map fst d" using kd by (simp add: keys_obj_set)
  have "fold (\<lambda>(key, v) destination. obj_set destination key (g key v)) (p # l) d =
        fold (\<lambda>(key, v) destination. obj_set destination key (g key v)) l (obj_set d k (g k v))"
    by (simp add: p)
  also have "\<dots> = map (\<lambda>(k, x). (k, case map_of l k of Some v \<Rightarrow> g k v | None \<Rightarrow> x)) (obj_set d k (g k v))"
    using Cons.prems keys by (intro Cons.IH) (auto simp: p)
  also have "\<dots> = map (\<lambda>(k, x). (k, case map_of (p # l) k of Some v \<Rightarrow> g k v | None \<Rightarrow> x)) d"
    using kl by (auto simp: obj_set_map [OF kd Cons.prems(1)] p)
  finally show ?case .
qed

lemma fold_obj_set_fresh:
  "distinct (map fst l) \<Longrightarrow> set (map fst l) \<inter> set (map fst d) = {} \<Longrightarrow>
   fold (\<lambda>(key, v) destination. obj_set destination key (g key v)) l d =
   d @ map (\<lambda>(k, v). (k, g k v)) l"
proof (induction l arbitrary: d)
  case Nil
  then show ?case by simp
next
  case (Cons p l)
  obtain k v where p: "p = (k, v)" by (cases p)
  have fresh: "k \<notin> set (map fst d)" using Cons.prems p by auto
  have app: "obj_set d k (g k v) = d @ [(k, g k v)]" using fresh by (induction d) auto
  show ?case using Cons.prems p by (simp add: app Cons.IH)
qed

lemma map_of_self:
  "distinct (map fst kvs) \<Longrightarrow> map fst d = map fst kvs \<Longrightarrow>
   map (\<lambda>(k, x). (k, case map_of kvs k of Some v \<Rightarrow> g k v | None \<Rightarrow> x)) d = map (\<lambda>(k, v). (k, g k v)) kvs"
proof (induction kvs arbitrary: d)
  case Nil
  then show ?case by simp
next
  case (Cons p kvs)
  obtain k v where p: "p = (k, v)" by (cases p)
  obtain q d' where d: "d = q # d'" using Cons.prems by (cases d) auto
  obtain x where q: "q = (k, x)" using Cons.prems d p by (cases q) auto
  have keys: "map fst d' = map fst kvs" using Cons.prems d by simp
  have nk: "k \<notin> set (map fst d')" using Cons.prems p keys by auto
  have "map (\<lambda>(k', x). (k', case map_of (p # kvs) k' of Some v \<Rightarrow> g k' v | None \<Rightarrow> x)) d' =
        map (\<lambda>(k', x). (k', case map_of kvs k' of Some v \<Rightarrow> g k' v | None \<Rightarrow> x)) d'"
    using nk by (intro map_cong) (force simp: p)+
  also have "\<dots> = map (\<lambda>(k, v). (k, g k v)) kvs"
    using Cons.prems keys by (intro Cons.IH) auto
  finally show ?case by (simp add: d q p)
qed


lemma mergeable_truthy: "isMergeableObject v \<Longrightarrow> truthy v"
  by (cases v) simp_all

lemma jget_distinct: "distinct (map fst kvs) \<Longrightarrow> (k, v) \<in> set kvs \<Longrightarrow> jget (JObj kvs) k = v"
  by (simp add: jget_def)

lemma mergeObject_self:
  assumes dk: "distinct (map fst kvs)"
    and IH: "\<And>k v. (k, v) \<in> set kvs \<Longrightarrow> isMergeableObject v \<Longrightarrow> deepmerge v v = v"
  shows "mergeObject (JObj kvs) (JObj kvs) = JObj kvs"
proof -
  define g where "g = (\<lambda>key sv.
     if \<not> isMergeableObject sv \<or> \<not> truthy (jget (JObj kvs) key)
     then cloneUnlessOtherwiseSpecified sv else deepmerge (jget (JObj kvs) key) sv)"
  define d where "d = map (\<lambda>(k, v). (k, cloneUnlessOtherwiseSpecified v)) kvs"
  have step: "(\<lambda>(key, sv) destination.
          if \<not> isMergeableObject sv \<or> \<not> truthy (jget (JObj kvs) key)
          then obj_set destination key (cloneUnlessOtherwiseSpecified sv)
          else obj_set destination key (deepmerge (jget (JObj kvs) key) sv)) =
        (\<lambda>(key, sv) destination. obj_set destination key (g key sv))"
    by (auto simp: fun_eq_iff g_def)
  have inner: "fold (\<lambda>(key, tv) destination.
            obj_set destination key (cloneUnlessOtherwiseSpecified tv)) kvs [] = d"
    using fold_obj_set_fresh [of kvs "[]" "\<lambda>k v. cloneUnlessOtherwiseSpecified v"] dk
    by (simp add: d_def)
  have keys: "map fst d = map fst kvs"
    by (simp add: d_def case_prod_beta comp_def)
  have gid: "g k v = v" if "(k, v) \<in> set kvs" for k v
  proof (cases "isMergeableObject v")
    case True
    then show ?thesis
      using that IH [OF that True] jget_distinct [OF dk that] mergeable_truthy [OF True]
      by (simp add: g_def)
  next
    case False
    then show ?thesis by (simp add: g_def cloneUnlessOtherwiseSpecified.simps)
  qed
  have "fold (\<lambda>(key, sv) destination. obj_set destination key (g key sv)) kvs d =
        map (\<lambda>(k, x). (k, case map_of kvs k of Some v \<Rightarrow> g k v | None \<Rightarrow> x)) d"
    using dk keys by (intro fold_obj_set_over) simp_all
  also have "\<dots> = map (\<lambda>(k, v). (k, g k v)) kvs"
    using dk keys by (rule map_of_self)
  also have "\<dots> = map (\<lambda>p. p) kvs"
    by (intro map_cong) (auto simp: gid)
  finally have outer:
    "fold (\<lambda>(key, sv) destination. obj_set destination key (g key sv)) kvs d = kvs"
    by simp
  show ?thesis
    unfolding mergeObject.simps [of "JObj kvs" "JObj kvs"] own_props.simps
      isMergeableObject.simps if_True inner step outer
    by (rule refl)
qed

lemma arrayMerge_self:
  assumes IH: "\<And>e. e \<in> set xs \<Longrightarrow> isMergeableObject e \<Longrightarrow> deepmerge e e = e"
    and nn: "JNaN \<notin> set xs"
  shows "arrayMerge xs xs = xs"
proof -
  have "fold
       (\<lambda>(i, e) destination.
          if e = JHole then destination
          else if typeof_undefined (arr_get destination i) then
            arr_set destination i
              (if isMergeableObject e then deepmerge (emptyTarget e) e else e)
          else if isMergeableObject e then
            arr_set destination i (deepmerge (arr_get xs i) e)
          else if indexOf xs e = - 1 then destination @ [e]
          else destination)
       (enumerate 0 xs) xs = xs"
  proof (rule fold_id)
    fix p assume pin: "p \<in> set (enumerate 0 xs)"
    obtain i e where pe: "p = (i, e)" by (cases p)
    have i: "i < length xs" and p: "p = (i, xs ! i)"
      using pin by (simp_all add: pe in_set_enumerate_eq)
    have get: "arr_get xs i = xs ! i" using i by (simp add: arr_get_def)
    have mem: "xs ! i \<in> set xs" using i by simp
    have upd: "xs[i := xs ! i] = xs" by simp
    show "(case p of (i, e) \<Rightarrow> \<lambda>destination.
          if e = JHole then destination
          else if typeof_undefined (arr_get destination i) then
            arr_set destination i
              (if isMergeableObject e then deepmerge (emptyTarget e) e else e)
          else if isMergeableObject e then
            arr_set destination i (deepmerge (arr_get xs i) e)
          else if indexOf xs e = - 1 then destination @ [e]
          else destination) xs = xs"
    proof (cases "xs ! i")
      case (JObj kvs)
      then show ?thesis using IH [OF mem] i upd by (simp add: p get arr_set_def)
    next
      case (JArr ys)
      then show ?thesis using IH [OF mem] i upd by (simp add: p get arr_set_def)
    next
      case JUndef
      then show ?thesis using i upd by (simp add: p get arr_set_def)
    next
      case JHole
      then show ?thesis by (simp add: p)
    next
      case JNaN
      then show ?thesis using mem nn by simp
    qed (use indexOf_found [OF mem] i in \<open>simp_all add: p get\<close>)
  qed
  then show ?thesis by (simp add: arrayMerge.simps [of xs xs])
qed


text \<open>
  C8, as stated, fails: \<open>indexOf\<close> never finds \<open>NaN\<close>, so \<open>arrayMerge\<close>
  appends a \<open>NaN\<close> that the target sequence already holds, and the merge of the
  tree \<open>{a: [NaN]}\<close> with itself is \<open>{a: [NaN, NaN]}\<close>.
\<close>

theorem deepmerge_NaN_counterexample:
  "deepmerge (JObj [(''a'', JArr [JNaN])]) (JObj [(''a'', JArr [JNaN])]) =
     JObj [(''a'', JArr [JNaN, JNaN])] \<and>
   deepmerge (JObj [(''a'', JArr [JNaN])]) (JObj [(''a'', JArr [JNaN])]) \<noteq>
     JObj [(''a'', JArr [JNaN])]"
proof -
  have "deepmerge (JObj [(''a'', JArr [JNaN])]) (JObj [(''a'', JArr [JNaN])]) =
     JObj [(''a'', JArr [JNaN, JNaN])]"
    by code_simp
  then show ?thesis by simp
qed

text \<open>
  C8, amended. For an error tree \<open>e\<close> (a plain mapping or an array, of
  primitives and of such nodes) none of whose arrays has \<open>NaN\<close> as an element,
  the array-aware deep merge of \<open>e\<close> with itself is \<open>e\<close>: \<open>arrayMerge\<close>
  leaves every slot as it is (a missing slot is filled with the source's
  element, a mergeable element is merged with itself, a primitive that the
  target already holds is not appended again), and the merge of a mapping with
  itself is the mapping.
\<close>

theorem deepmerge_idempotent:
  "distinct_keys e \<Longrightarrow> no_NaN_element e \<Longrightarrow> isMergeableObject e \<Longrightarrow> deepmerge e e = e"
proof (induction e)
  case (JObj kvs)
  have "mergeObject (JObj kvs) (JObj kvs) = JObj kvs"
  proof (rule mergeObject_self)
    show "distinct (map fst kvs)" using JObj.prems by simp
  next
    fix k v assume kv: "(k, v) \<in> set kvs" and m: "isMergeableObject v"
    have "distinct_keys v" "no_NaN_element v" using JObj.prems kv by (auto simp: list_all_iff)
    then show "deepmerge v v = v" using JObj.IH [of "(k, v)" v] kv m by simp
  qed
  then show ?case by (simp add: deepmerge.simps [of "JObj kvs" "JObj kvs"])
next
  case (JArr xs)
  have "arrayMerge xs xs = xs"
  proof (rule arrayMerge_self)
    fix e assume e: "e \<in> set xs" and m: "isMergeableObject e"
    have "distinct_keys e" "no_NaN_element e" using JArr.prems e by (auto simp: list_all_iff)
    then show "deepmerge e e = e" using JArr.IH [OF e] m by simp
  next
    show "JNaN \<notin> set xs" using JArr.prems by (auto simp: list_all_iff)
  qed
  then show ?case by (simp add: deepmerge.simps [of "JArr xs" "JArr xs"])
qed simp_all

theorem deepmerge_idempotent_witness:
  "distinct_keys (JObj [(''friends'', JArr [JHole, JObj [(''name'', JStr ''required''), (''age'', JNaN)], JStr ''bad'', JStr ''bad'']), (''email'', JStr ''invalid'')]) \<and>
   no_NaN_element (JObj [(''friends'', JArr [JHole, JObj [(''name'', JStr ''required''), (''age'', JNaN)], JStr ''bad'', JStr ''bad'']), (''email'', JStr ''invalid'')]) \<and>
   isMergeableObject (JObj [(''friends'', JArr [JHole, JObj [(''name'', JStr ''required''), (''age'', JNaN)], JStr ''bad'', JStr ''bad'']), (''email'', JStr ''invalid'')]) \<and>
   deepmerge (JObj [(''friends'', JArr [JHole, JObj [(''name'', JStr ''required''), (''age'', JNaN)], JStr ''bad'', JStr ''bad'']), (''email'', JStr ''invalid'')])
     (JObj [(''friends'', JArr [JHole, JObj [(''name'', JStr ''required''), (''age'', JNaN)], JStr ''bad'', JStr ''bad'']), (''email'', JStr ''invalid'')]) =
   JObj [(''friends'', JArr [JHole, JObj [(''name'', JStr ''required''), (''age'', JNaN)], JStr ''bad'', JStr ''bad'']), (''email'', JStr ''invalid'')]"
  using deepmerge_idempotent [of "JObj [(''friends'', JArr [JHole, JObj [(''name'', JStr ''required''), (''age'', JNaN)], JStr ''bad'', JStr ''bad'']), (''email'', JStr ''invalid'')]"]
  by simp

section \<open>Properties of the schema helpers, the holder and the orchestrator\<close>

lemmas example_defs = example_props_def required_def example_form_def late_values_def
  handler_values_def reset_form_def registerField_def componentDidMount_def
  componentWillUnmount_def constructor_def emptyObject_def

lemmas holder_defs = setState_def setState_callback_def setState_updater_def didMount_def
  getStateUpdater_values_def getStateUpdater_touched_def new_object_def new_promise_def
  called_def enqueue_def

text \<open>
  C5. \<open>yupToFormErrors\<close> on an error whose inner list holds two errors for the
  nested path \<open>a.b\<close>: the test \<open>!errors[err.path]\<close> looks up the key
  \<open>a.b\<close> at the top of the tree, where the first message was not stored (it is at
  \<open>a\<close>, then \<open>b\<close>), so the second message replaces the first.
\<close>

theorem yupToFormErrors_nested_last_wins:
  "yupToFormErrors (ValidationError [] ''2 errors occurred''
     [ValidationError ''a.b'' ''first'' [], ValidationError ''a.b'' ''second'' []]) =
   JObj [(''a'', JObj [(''b'', JStr ''second'')])]"
  by (simp add: yupToFormErrors_def setIn_def toPath_def is_separator_def jget_def
      is_index_def is_digit_def)

text \<open>
  C3. Post-teardown, when the component has been unmounted and the liveness flag
  is false, a call of \<open>setFieldValue\<close>, \<open>setValues\<close>, \<open>setTouched\<close> or
  \<open>setFieldTouched\<close> leaves the holder, and so the FormState, as it is:
  \<open>setFieldValue\<close> tests \<open>didMount\<close>, and the only write of the other three
  is a \<open>setState\<close>, which is dropped with its callback.
\<close>

theorem setters_after_teardown:
  "lifecycle h = Unmounted \<Longrightarrow>
   \<not> didMount h \<and>
   setFieldValue field v shouldValidate h = h \<and>
   setValues vals h = h \<and>
   setTouched t h = h \<and>
   setFieldTouched field b shouldValidate h = h"
  by (simp add: didMount_def setFieldValue_def setValues_def setTouched_def setFieldTouched_def
      setState_callback_def setState_updater_def)

theorem setters_after_teardown_witness:
  "lifecycle (componentWillUnmount example_form) = Unmounted \<and>
   \<not> didMount (componentWillUnmount example_form) \<and>
   state (setFieldValue ''name'' (JStr ''late'') True (componentWillUnmount example_form)) =
     state example_form \<and>
   state (setValues late_values (componentWillUnmount example_form)) = state example_form \<and>
   state (setTouched late_values (componentWillUnmount example_form)) = state example_form \<and>
   state (setFieldTouched ''name'' True True (componentWillUnmount example_form)) =
     state example_form \<and>
   values (state (setValues late_values example_form)) = late_values \<and>
   values (state example_form) \<noteq> late_values"
  using setters_after_teardown
    [of "componentWillUnmount example_form" "''name''" "JStr ''late''" True late_values
        late_values True]
  by (simp add: example_defs holder_defs setValues_def)

text \<open>
  C4. A reset handler that returns a promise fulfilled with a truthy value:
  \<open>then(this.resetForm)\<close> passes the value to \<open>resetForm\<close> as
  \<open>nextValues\<close>, so the form is reset to that value and not to the configured
  initial values; if the promise rejects, the form is not reset.
\<close>

theorem handleReset_promise_value_used:
  "snd (handleReset reset_form) = Some (Fulfilled handler_values) \<and>
   values (state (handleReset_then (Fulfilled handler_values) (fst (handleReset reset_form)))) =
     handler_values \<and>
   initialValues (handleReset_then (Fulfilled handler_values) (fst (handleReset reset_form))) =
     handler_values \<and>
   formik_config.initialValues (props reset_form) \<noteq> handler_values \<and>
   handleReset_then (Rejected handler_values) (fst (handleReset reset_form)) =
     fst (handleReset reset_form)"
  by (simp add: example_defs holder_defs handleReset_def handleReset_then_def resetForm_def Let_def)





text \<open>
  C7. Whatever the state of a holder that has not been unmounted,
  \<open>resetForm()\<close> sets \<open>values\<close> and the stored initial values to the
  configured initial values, \<open>errors\<close> and \<open>touched\<close> to the empty object,
  \<open>status\<close> to \<open>undefined\<close>, \<open>submitCount\<close> to 0 and \<open>isSubmitting\<close>,
  \<open>isValidating\<close> to false; \<open>resetForm(nextValues)\<close> with a values object
  (which is truthy) does the same with \<open>nextValues\<close>. The stored initial
  values are an instance field and are set on every holder.
\<close>

theorem resetForm_restores:
  "initialValues (resetForm None h) = formik_config.initialValues (props h) \<and>
   (truthy (content nextValues) \<longrightarrow>
      initialValues (resetForm (Some nextValues) h) = nextValues) \<and>
   (lifecycle h \<noteq> Unmounted \<longrightarrow>
      state (resetForm None h) =
        \<lparr>values = formik_config.initialValues (props h), errors = emptyObject,
         touched = emptyObject, status = JUndef, error = JUndef, isSubmitting = False,
         isValidating = False, submitCount = 0\<rparr> \<and>
      (truthy (content nextValues) \<longrightarrow>
         state (resetForm (Some nextValues) h) =
           \<lparr>values = nextValues, errors = emptyObject, touched = emptyObject, status = JUndef,
            error = JUndef, isSubmitting = False, isValidating = False, submitCount = 0\<rparr>))"
  by (simp add: resetForm_def setState_def Let_def)

theorem resetForm_restores_witness:
  "truthy (content handler_values) \<and>
   lifecycle mutated_form \<noteq> Unmounted \<and>
   values (state mutated_form) = late_values \<and>
   submitCount (state mutated_form) = 3 \<and>
   state (resetForm None mutated_form) =
     \<lparr>values = \<lparr>oid = Given 1, content = JObj [(''name'', JStr [])]\<rparr>, errors = emptyObject,
      touched = emptyObject, status = JUndef, error = JUndef, isSubmitting = False,
      isValidating = False, submitCount = 0\<rparr> \<and>
   initialValues (resetForm None mutated_form) =
     \<lparr>oid = Given 1, content = JObj [(''name'', JStr [])]\<rparr> \<and>
   state (resetForm (Some handler_values) mutated_form) =
     \<lparr>values = handler_values, errors = emptyObject, touched = emptyObject, status = JUndef,
      error = JUndef, isSubmitting = False, isValidating = False, submitCount = 0\<rparr> \<and>
   initialValues (resetForm (Some handler_values) mutated_form) = handler_values"
  using resetForm_restores [of mutated_form handler_values]
  by (simp add: mutated_form_def example_defs holder_defs setValues_def setTouched_def)

text \<open>
  C9. With \<open>errors\<close> an object: \<open>dirty\<close> is the deep inequality of the stored
  initial values and the current values; when dirty, \<open>isValid\<close> says that
  \<open>errors\<close> has no key; when not dirty, \<open>isValid\<close> is the configured
  \<open>isInitialValid\<close>, called with the props when it is a function, and does not
  depend on \<open>errors\<close>.
\<close>

theorem isValid_derivation:
  "content (errors (state h)) = JObj kvs \<Longrightarrow>
   dirty (getFormikComputedProps isEqual h) =
     (\<not> isEqual (content (initialValues h)) (content (values (state h)))) \<and>
   (dirty (getFormikComputedProps isEqual h) \<longrightarrow>
      isValid (getFormikComputedProps isEqual h) = JBool (length kvs = 0)) \<and>
   (\<not> dirty (getFormikComputedProps isEqual h) \<longrightarrow>
      isValid (getFormikComputedProps isEqual h) =
        (case isInitialValid (props h) of
           IsFunction f \<Rightarrow> JBool (f (formik_config.truncate (props h)))
         | IsBoolean b \<Rightarrow> JBool b) \<and>
      isValid (getFormikComputedProps isEqual (h\<lparr>state := (state h)\<lparr>errors := e\<rparr>\<rparr>)) =
        isValid (getFormikComputedProps isEqual h))"
  by (simp add: getFormikComputedProps_def Let_def split: initial_valid.splits)

theorem isValid_derivation_witness:
  "content (errors (state (setValues late_values example_form))) = JObj [] \<and>
   dirty (getFormikComputedProps (=) (setValues late_values example_form)) \<and>
   isValid (getFormikComputedProps (=) (setValues late_values example_form)) = JBool True \<and>
   \<not> dirty (getFormikComputedProps (=) example_form) \<and>
   isValid (getFormikComputedProps (=) example_form) = JBool False \<and>
   isValid (getFormikComputedProps (=)
     (example_form\<lparr>state := (state example_form)\<lparr>errors := handler_values\<rparr>\<rparr>)) = JBool False"
  using isValid_derivation [of "setValues late_values example_form" "[]" "(=)"]
    isValid_derivation [of example_form "[]" "(=)" handler_values]
  by (simp add: example_defs holder_defs setValues_def)

lemma strict_eq_object: "isMergeableObject (content a) \<Longrightarrow> strict_eq a a"
  by (simp add: strict_eq_def)

lemma strict_eq_trans: "strict_eq a b \<Longrightarrow> strict_eq b c \<Longrightarrow> strict_eq a c"
  by (auto simp: strict_eq_def strict_equals_def split: if_splits)

lemma same_ref_trans: "same_ref a b \<Longrightarrow> same_ref b c \<Longrightarrow> same_ref a c"
  by (cases a; cases b; cases c) (auto intro: strict_eq_trans)

lemma every_same_trans:
  assumes "every_same a b" and "every_same b c" and "length a = length b"
  shows "every_same a c"
proof -
  have ab: "list_all2 same_ref a b" using assms(1,3) by (simp add: every_same_def)
  have bc: "list_all2 same_ref b (take (length b) c)" using assms(2) by (simp add: every_same_def)
  have "list_all2 same_ref a (take (length b) c)"
    using ab bc by (rule list_all2_trans [rotated]) (rule same_ref_trans)
  then show ?thesis using assms(2,3) by (simp add: every_same_def)
qed

lemma has_validator:
  "f \<in> set (fieldKeysWithValidation h) \<Longrightarrow> \<exists>validator. map_of (fields' h) f = Some (Some validator)"
  by (auto simp: fieldKeysWithValidation_def split: option.splits)

lemma fieldKeys_calls [simp]:
  "fieldKeysWithValidation (h\<lparr>calls := cs\<rparr>) = fieldKeysWithValidation h"
  by (simp add: fieldKeysWithValidation_def)

lemma fieldValidations_eq:
  "set ks \<subseteq> set (fieldKeysWithValidation h) \<Longrightarrow>
   snd (fieldValidations vals ks h) =
     h\<lparr>calls := calls h @ map (\<lambda>f. FieldValidate f (getIn vals f)) ks\<rparr>"
proof (induction ks arbitrary: h)
  case Nil
  then show ?case by simp
next
  case (Cons k ks)
  obtain validator where v: "map_of (fields' h) k = Some (Some validator)"
    using Cons.prems has_validator [of k h] by auto
  have "snd (fieldValidations vals ks (called (FieldValidate k (getIn vals k)) h)) =
        (called (FieldValidate k (getIn vals k)) h)
          \<lparr>calls := calls (called (FieldValidate k (getIn vals k)) h) @
                    map (\<lambda>f. FieldValidate f (getIn vals f)) ks\<rparr>"
    using Cons.prems by (intro Cons.IH) (simp add: called_def)
  then show ?case
    by (auto simp: runSingleFieldLevelValidation_def v called_def split: prod.splits)
qed

lemma fieldErrors_eq:
  "\<exists>n. snd (fieldErrors l prev h) = h\<lparr>allocated := allocated h + n\<rparr>"
proof (induction l arbitrary: prev h)
  case Nil
  have "snd (fieldErrors [] prev h) = h\<lparr>allocated := allocated h + 0\<rparr>" by simp
  then show ?case by blast
next
  case (Cons p l)
  obtain cur key where p: "p = (cur, key)" by (cases p)
  show ?case
  proof (cases "truthy cur")
    case True
    obtain n where
      "snd (fieldErrors l \<lparr>oid = Fresh (allocated h), content = setIn (content prev) key cur\<rparr>
              (h\<lparr>allocated := Suc (allocated h)\<rparr>)) =
       (h\<lparr>allocated := Suc (allocated h)\<rparr>)
          \<lparr>allocated := allocated (h\<lparr>allocated := Suc (allocated h)\<rparr>) + n\<rparr>"
      using Cons.IH by blast
    then have "snd (fieldErrors (p # l) prev h) = h\<lparr>allocated := allocated h + Suc n\<rparr>"
      using True by (simp add: p new_object_def)
    then show ?thesis by blast
  next
    case False
    then show ?thesis using Cons.IH [of prev h] by (simp add: p)
  qed
qed

lemma runFieldLevelValidations_eq:
  "\<exists>n. snd (runFieldLevelValidations vals h) =
     h\<lparr>calls := calls h @ field_calls (content vals) h, allocated := allocated h + n\<rparr>"
proof -
  obtain rs h1 where fv: "fieldValidations (content vals) (fieldKeysWithValidation h) h = (rs, h1)"
    by (cases "fieldValidations (content vals) (fieldKeysWithValidation h) h")
  have h1: "h1 = h\<lparr>calls := calls h @ field_calls (content vals) h\<rparr>"
    using fieldValidations_eq [of "fieldKeysWithValidation h" h "content vals"] fv
    by (simp add: field_calls_def)
  obtain e h2 where fe:
    "fieldErrors (zip (map field_message rs) (fieldKeysWithValidation h)) emptyObject h1 = (e, h2)"
    by (cases "fieldErrors (zip (map field_message rs) (fieldKeysWithValidation h)) emptyObject h1")
  obtain n where h2: "h2 = h1\<lparr>allocated := allocated h1 + n\<rparr>"
    using fieldErrors_eq [of "zip (map field_message rs) (fieldKeysWithValidation h)" emptyObject h1] fe
    by auto
  have fv': "fieldValidations (content vals) (fieldKeysWithValidation h) h =
      (rs, h\<lparr>calls := calls h @ field_calls (content vals) h\<rparr>)"
    using fv h1 by simp
  have fe': "fieldErrors (zip (map field_message rs) (fieldKeysWithValidation h)) emptyObject
       (h\<lparr>calls := calls h @ field_calls (content vals) h\<rparr>) =
      (e, h\<lparr>calls := calls h @ field_calls (content vals) h, allocated := allocated h + n\<rparr>)"
    using fe h1 h2 by simp
  have "snd (runFieldLevelValidations vals h) =
        h\<lparr>calls := calls h @ field_calls (content vals) h, allocated := allocated h + n\<rparr> \<or>
        snd (runFieldLevelValidations vals h) =
        h\<lparr>calls := calls h @ field_calls (content vals) h, allocated := allocated h + Suc n\<rparr>"
    by (simp add: runFieldLevelValidations_def fv' fe' new_promise_def Let_def)
  then show ?thesis by blast
qed

lemma validation_frame_refl: "validation_frame h h"
  by (simp add: validation_frame_def)

lemma validation_frame_trans:
  "validation_frame h h1 \<Longrightarrow> validation_frame h1 h2 \<Longrightarrow> validation_frame h h2"
  by (auto simp: validation_frame_def)

lemma validation_frame_no_submit:
  "validation_frame h h' \<Longrightarrow> filter is_OnSubmit (calls h') = filter is_OnSubmit (calls h)"
  by (auto simp: validation_frame_def list_all_iff filter_empty_conv)

lemma fieldKeys_frame:
  "fields' h' = fields' h \<Longrightarrow> fieldKeysWithValidation h' = fieldKeysWithValidation h"
  by (simp add: fieldKeysWithValidation_def)

lemma runFieldLevelValidations_frame:
  "validation_frame h (snd (runFieldLevelValidations vals h))"
proof -
  obtain n where "snd (runFieldLevelValidations vals h) =
     h\<lparr>calls := calls h @ field_calls (content vals) h, allocated := allocated h + n\<rparr>"
    using runFieldLevelValidations_eq by blast
  then show ?thesis
    by (simp add: validation_frame_def field_calls_def list_all_iff)
qed

lemma runValidationSchema_miss_frame:
  "validation_frame h (snd (runValidationSchema_miss schema vals h))"
  by (simp add: runValidationSchema_miss_def validation_frame_def called_def new_object_def
      new_promise_def Let_def split: prod.splits schema_outcome.splits)

lemma runValidationSchema_frame:
  "validation_frame h (snd (runValidationSchema sp vals h))"
proof (cases sp)
  case (SchemaObject s)
  then show ?thesis
    using runValidationSchema_miss_frame [of h s vals]
    by (auto simp: runValidationSchema_def resolve_schema_def validation_frame_refl
        split: option.splits prod.splits)
next
  case (SchemaFactory f)
  have "validation_frame h (h\<lparr>schemaFactoryCalls := Suc (schemaFactoryCalls h)\<rparr>)"
    by (simp add: validation_frame_def)
  then show ?thesis
    using SchemaFactory
      runValidationSchema_miss_frame [of "h\<lparr>schemaFactoryCalls := Suc (schemaFactoryCalls h)\<rparr>"
        "f (schemaFactoryCalls h)" vals]
    by (auto simp: runValidationSchema_def resolve_schema_def
        split: option.splits prod.splits intro: validation_frame_trans)
qed

lemma runValidateHandler_frame:
  "validation_frame h (snd (runValidateHandler handler vals h))"
  by (simp add: runValidateHandler_def validation_frame_def called_def new_promise_def Let_def
      split: prod.splits maybe_promise.splits option.splits)

lemma validationResults_frame:
  "validation_frame h (snd (validationResults vals h))"
proof -
  obtain r1 h1 where a: "runFieldLevelValidations vals h = (r1, h1)"
    by (cases "runFieldLevelValidations vals h")
  obtain r2 h2 where b:
    "(case validationSchema (props h1) of
        Some sp \<Rightarrow> runValidationSchema sp vals h1
      | None \<Rightarrow> (Value emptyObject, h1)) = (r2, h2)"
    by (cases "case validationSchema (props h1) of
        Some sp \<Rightarrow> runValidationSchema sp vals h1
      | None \<Rightarrow> (Value emptyObject, h1)")
  obtain r3 h3 where c:
    "(case formik_config.validate (props h2) of
        Some handler \<Rightarrow> runValidateHandler handler vals h2
      | None \<Rightarrow> (Value emptyObject, h2)) = (r3, h3)"
    by (cases "case formik_config.validate (props h2) of
        Some handler \<Rightarrow> runValidateHandler handler vals h2
      | None \<Rightarrow> (Value emptyObject, h2)")
  have f1: "validation_frame h h1"
    using runFieldLevelValidations_frame [of h vals] a by simp
  have f2: "validation_frame h1 h2"
  proof (cases "validationSchema (props h1)")
    case None
    then show ?thesis using b by (simp add: validation_frame_refl)
  next
    case (Some sp)
    then show ?thesis using b runValidationSchema_frame [of h1 sp vals] by simp
  qed
  have f3: "validation_frame h2 h3"
  proof (cases "formik_config.validate (props h2)")
    case None
    then show ?thesis using c by (simp add: validation_frame_refl)
  next
    case (Some handler)
    then show ?thesis using c runValidateHandler_frame [of h2 handler vals] by simp
  qed
  have "snd (validationResults vals h) = h3"
    by (simp add: validationResults_def a b c)
  then show ?thesis
    using f1 f2 f3 by (auto intro: validation_frame_trans)
qed

lemma validationResults_length: "length (fst (validationResults vals h)) = 3"
  by (simp add: validationResults_def split: prod.splits)

lemma setState_keeps:
  "props (setState u h) = props h" "lifecycle (setState u h) = lifecycle h"
  "fields' (setState u h) = fields' h" "initialValues (setState u h) = initialValues h"
  "runValidationTask (setState u h) = runValidationTask h" "calls (setState u h) = calls h"
  "lastYupValidationResult (setState u h) = lastYupValidationResult h"
  "lastValidationResults (setState u h) = lastValidationResults h"
  "state (setState u h) = (if lifecycle h = Unmounted then state h else u (state h))"
  by (simp_all add: setState_def)

lemma runValidations_cases:
  assumes vr: "validationResults vals h = (rs, g)"
  obtains (hit) key ce where "lastValidationResults g = Some (key, ce)" "every_same rs key"
      "runValidations vals h =
         (ce, if didMount g
              then setState (\<lambda>s. s\<lparr>isValidating := False, errors := ce\<rparr>) g else g)"
  | (miss) "\<forall>key ce. lastValidationResults g = Some (key, ce) \<longrightarrow> \<not> every_same rs key"
      "runValidations vals h =
         runValidations_settle rs (setState (\<lambda>s. s\<lparr>isValidating := True\<rparr>) g)"
proof (cases "lastValidationResults g")
  case None
  then show ?thesis
    using miss by (simp add: runValidations_def runValidations_start_def vr)
next
  case (Some p)
  obtain key ce where p: "p = (key, ce)" by (cases p)
  show ?thesis
  proof (cases "every_same rs key")
    case True
    then show ?thesis
      using hit [of key ce] Some p
      by (simp add: runValidations_def runValidations_start_def vr)
  next
    case False
    then show ?thesis
      using miss Some p
      by (simp add: runValidations_def runValidations_start_def vr)
  qed
qed

lemma runValidations_settle_effect:
  "runValidations_settle rs g = (ce, h') \<Longrightarrow>
   h' = (if didMount g then setState (\<lambda>s. s\<lparr>isValidating := False, errors := ce\<rparr>) g else g)
          \<lparr>allocated := Suc (allocated g), lastValidationResults := Some (rs, ce)\<rparr>"
  by (auto simp: runValidations_settle_def new_object_def setState_def didMount_def Let_def)

lemma runValidations_effect:
  assumes run: "runValidations vals h = (ce, h')"
  shows "props h' = props h" "didMount h' = didMount h" "fields' h' = fields' h"
    "initialValues h' = initialValues h" "runValidationTask h' = runValidationTask h"
    "state h' = (if didMount h then (state h)\<lparr>isValidating := False, errors := ce\<rparr>
                 else (state h)\<lparr>isValidating := isValidating (state h')\<rparr>)"
    "calls h' = calls (snd (validationResults vals h))"
    "lastYupValidationResult h' = lastYupValidationResult (snd (validationResults vals h))"
    "filter is_OnSubmit (calls h') = filter is_OnSubmit (calls h)"
proof -
  obtain rs g where vr: "validationResults vals h = (rs, g)"
    by (cases "validationResults vals h")
  have fr: "validation_frame h g"
    using validationResults_frame [of h vals] vr by simp
  have ns: "filter is_OnSubmit (calls g) = filter is_OnSubmit (calls h)"
    using fr by (rule validation_frame_no_submit)
  from vr have h': "h' = (if didMount g then setState (\<lambda>s. s\<lparr>isValidating := False, errors := ce\<rparr>) g else g) \<or>
        h' = (if didMount g then setState (\<lambda>s. s\<lparr>isValidating := False, errors := ce\<rparr>) g
              else setState (\<lambda>s. s\<lparr>isValidating := True\<rparr>) g)
          \<lparr>allocated := Suc (allocated g), lastValidationResults := Some (rs, ce)\<rparr>"
  proof (cases rule: runValidations_cases)
    case (hit key c)
    then show ?thesis using run by simp
  next
    case miss
    then show ?thesis
      using run runValidations_settle_effect [of rs "setState (\<lambda>s. s\<lparr>isValidating := True\<rparr>) g" ce h']
      by (auto simp: setState_def didMount_def)
  qed
  have g: "props g = props h" "lifecycle g = lifecycle h" "fields' g = fields' h"
    "initialValues g = initialValues h" "runValidationTask g = runValidationTask h"
    "state g = state h"
    using fr by (simp_all add: validation_frame_def)
  show "props h' = props h" "didMount h' = didMount h" "fields' h' = fields' h"
    "initialValues h' = initialValues h" "runValidationTask h' = runValidationTask h"
    using h' g by (auto simp: setState_keeps didMount_def split: if_splits)
  show "state h' = (if didMount h then (state h)\<lparr>isValidating := False, errors := ce\<rparr>
                 else (state h)\<lparr>isValidating := isValidating (state h')\<rparr>)"
    using h' g by (auto simp: setState_keeps didMount_def split: if_splits)
  show "calls h' = calls (snd (validationResults vals h))"
    "lastYupValidationResult h' = lastYupValidationResult (snd (validationResults vals h))"
    using h' vr by (auto simp: setState_keeps)
  then show "filter is_OnSubmit (calls h') = filter is_OnSubmit (calls h)"
    using ns vr by simp
qed

lemma submitForm_start_effect:
  "didMount (submitForm_start h) = didMount h"
  "values (state (submitForm_start h)) = values (state h)"
  "calls (submitForm_start h) = calls h"
  by (simp_all add: submitForm_start_def new_object_def setState_def didMount_def)

text \<open>
  C2. \<open>submitForm\<close> on a live holder. When the merged error tree of the
  orchestration has a key, the submit handler is not called (the trace holds the
  calls of it that it held before) and \<open>isSubmitting\<close> is false at the end;
  when it has no key, the submit handler is called once, with the current values
  and the Action Facade.
\<close>

theorem submitForm_outcome:
  assumes live: "didMount h"
    and run: "runValidations (values (state (submitForm_start h))) (submitForm_start h) =
                (combinedErrors, h2)"
    and keys: "object_keys (content combinedErrors) = Some keys"
  shows "(keys \<noteq> [] \<longrightarrow>
            submitForm h = Inr (setState (\<lambda>s. s\<lparr>isSubmitting := False\<rparr>) h2) \<and>
            \<not> isSubmitting (state (setState (\<lambda>s. s\<lparr>isSubmitting := False\<rparr>) h2)) \<and>
            filter is_OnSubmit (calls (setState (\<lambda>s. s\<lparr>isSubmitting := False\<rparr>) h2)) =
              filter is_OnSubmit (calls h)) \<and>
         (keys = [] \<longrightarrow>
            submitForm h = Inr (executeSubmit h2) \<and>
            calls (executeSubmit h2) = calls h2 @ [OnSubmit (values (state h)) getFormikActions] \<and>
            filter is_OnSubmit (calls h2) = filter is_OnSubmit (calls h))"
proof -
  have dm: "didMount h2"
    using runValidations_effect(2) [OF run] live by (simp add: submitForm_start_effect)
  have "values (state h2) = values (state (submitForm_start h))"
    by (subst runValidations_effect(6) [OF run]) simp
  then have vals: "values (state h2) = values (state h)"
    by (simp add: submitForm_start_effect)
  have ns: "filter is_OnSubmit (calls h2) = filter is_OnSubmit (calls h)"
    using runValidations_effect(9) [OF run] by (simp add: submitForm_start_effect)
  have sf: "submitForm h = submitForm_then combinedErrors h2"
    by (simp add: submitForm_def run Let_def)
  show ?thesis
    using dm vals ns keys
    by (simp add: sf submitForm_then_def executeSubmit_def called_def setState_def didMount_def)
qed

theorem submitForm_outcome_witness:
  "didMount example_form \<and>
   object_keys (content (fst (runValidations (values (state (submitForm_start example_form)))
      (submitForm_start example_form)))) = Some [''name''] \<and>
   (case submitForm example_form of
      Inr h' \<Rightarrow> \<not> isSubmitting (state h') \<and> filter is_OnSubmit (calls h') = []
    | Inl e \<Rightarrow> False) \<and>
   didMount filled_form \<and>
   object_keys (content (fst (runValidations (values (state (submitForm_start filled_form)))
      (submitForm_start filled_form)))) = Some [] \<and>
   (case submitForm filled_form of
      Inr h' \<Rightarrow> filter is_OnSubmit (calls h') = [OnSubmit late_values getFormikActions]
    | Inl e \<Rightarrow> False)"
proof -
  have a1: "didMount example_form" by (simp add: example_defs didMount_def)
  have k1: "object_keys (content (fst (runValidations (values (state (submitForm_start example_form)))
      (submitForm_start example_form)))) = Some [''name'']"
    by code_simp
  have c1: "calls example_form = []" by (simp add: example_defs)
  have a2: "didMount filled_form"
    by (simp add: filled_form_def setValues_def example_defs holder_defs)
  have k2: "object_keys (content (fst (runValidations (values (state (submitForm_start filled_form)))
      (submitForm_start filled_form)))) = Some []"
    by code_simp
  have c2: "calls filled_form = []" "values (state filled_form) = late_values"
    by (simp_all add: filled_form_def setValues_def example_defs holder_defs)
  show ?thesis
    using submitForm_outcome [OF a1 surjective_pairing k1]
      submitForm_outcome [OF a2 surjective_pairing k2] a1 k1 a2 k2 c1 c2
    by (simp add: executeSubmit_def called_def)
qed

text \<open>
  C10. The continuation of \<open>submitForm\<close> with a merged error tree that has no
  key calls the submit handler with the current values and the Action Facade
  whatever \<open>didMount\<close> is, in particular after \<open>componentWillUnmount\<close>;
  with a tree that has a key, only a live holder gets \<open>isSubmitting\<close> reset.
\<close>

theorem submit_success_ignores_liveness:
  "object_keys (content combinedErrors) = Some [] \<Longrightarrow>
   submitForm_then combinedErrors h = Inr (executeSubmit h) \<and>
   calls (executeSubmit h) = calls h @ [OnSubmit (values (state h)) getFormikActions] \<and>
   submitForm_then combinedErrors (componentWillUnmount h) =
     Inr (executeSubmit (componentWillUnmount h)) \<and>
   \<not> didMount (executeSubmit (componentWillUnmount h)) \<and>
   calls (executeSubmit (componentWillUnmount h)) =
     calls h @ [OnSubmit (values (state h)) getFormikActions] \<and>
   (object_keys (content failed) = Some (k # ks) \<longrightarrow>
      submitForm_then failed (componentWillUnmount h) = Inr (componentWillUnmount h) \<and>
      submitForm_then failed (componentDidMount h) =
        Inr (setState (\<lambda>s. s\<lparr>isSubmitting := False\<rparr>) (componentDidMount h)))"
  by (simp add: submitForm_then_def executeSubmit_def called_def componentWillUnmount_def
      componentDidMount_def didMount_def)

theorem submit_success_ignores_liveness_witness:
  "object_keys (content (fst torn_down_run)) = Some [] \<and>
   \<not> didMount (snd torn_down_run) \<and>
   submitForm_then (fst torn_down_run) (snd torn_down_run) = Inr (executeSubmit (snd torn_down_run)) \<and>
   calls (executeSubmit (snd torn_down_run)) =
     [FieldValidate ''name'' (JStr ''late''), OnSubmit late_values getFormikActions]"
proof -
  have k: "object_keys (content (fst torn_down_run)) = Some []" by code_simp
  have d: "\<not> didMount (snd torn_down_run)" by code_simp
  have c: "calls (snd torn_down_run) = [FieldValidate ''name'' (JStr ''late'')]" by code_simp
  have v: "values (state (snd torn_down_run)) = late_values" by code_simp
  show ?thesis
    using submit_success_ignores_liveness [OF k, of "snd torn_down_run"] k d c v by simp
qed

lemma runValidations_stores:
  assumes run: "runValidations vals h = (ce, h')"
  shows "\<exists>key. lastValidationResults h' = Some (key, ce) \<and>
               (key = fst (validationResults vals h) \<or>
                every_same (fst (validationResults vals h)) key)"
proof -
  obtain rs g where vr: "validationResults vals h = (rs, g)"
    by (cases "validationResults vals h")
  from vr show ?thesis
  proof (cases rule: runValidations_cases)
    case (hit key c)
    then show ?thesis using run vr by (auto simp: setState_def didMount_def)
  next
    case miss
    then show ?thesis
      using run vr
        runValidations_settle_effect [of rs "setState (\<lambda>s. s\<lparr>isValidating := True\<rparr>) g" ce h']
      by auto
  qed
qed

lemma runValidations_reuses:
  assumes last: "lastValidationResults (snd (validationResults vals h)) = Some (key, ce)"
    and same: "every_same (fst (validationResults vals h)) key"
  shows "fst (runValidations vals h) = ce"
proof -
  obtain rs g where vr: "validationResults vals h = (rs, g)"
    by (cases "validationResults vals h")
  from vr show ?thesis
  proof (cases rule: runValidations_cases)
    case (hit k c)
    then show ?thesis using last vr by simp
  next
    case miss
    then show ?thesis using last same vr by simp
  qed
qed

lemma runValidateHandler_eq:
  "calls (snd (runValidateHandler handler vals h)) = calls h @ [ValidateHandler vals]"
  "lastYupValidationResult (snd (runValidateHandler handler vals h)) = lastYupValidationResult h"
  by (simp_all add: runValidateHandler_def called_def new_promise_def Let_def
      split: prod.splits maybe_promise.splits option.splits)

lemma runValidationSchema_hit:
  "schema_cached (resolved_schema h) vals h \<Longrightarrow> validationSchema (props h) = Some sp \<Longrightarrow>
   calls (snd (runValidationSchema sp vals h)) = calls h"
  by (auto simp: runValidationSchema_def resolve_schema_def schema_cached_def resolved_schema_def
      split: option.splits prod.splits schema_prop.splits)

lemma runValidationSchema_caches:
  "strict_eq vals vals \<Longrightarrow> validationSchema (props h) = Some sp \<Longrightarrow>
   schema_cached (resolved_schema h) vals (snd (runValidationSchema sp vals h))"
  by (auto simp: runValidationSchema_def resolve_schema_def runValidationSchema_miss_def
      schema_cached_def resolved_schema_def Let_def
      split: option.splits prod.splits schema_prop.splits)

lemma runFieldLevelValidations_keeps:
  "calls (snd (runFieldLevelValidations vals h)) = calls h @ field_calls (content vals) h"
  "lastYupValidationResult (snd (runFieldLevelValidations vals h)) = lastYupValidationResult h"
  "props (snd (runFieldLevelValidations vals h)) = props h"
  "schemaFactoryCalls (snd (runFieldLevelValidations vals h)) = schemaFactoryCalls h"
proof -
  obtain n where e: "snd (runFieldLevelValidations vals h) =
     h\<lparr>calls := calls h @ field_calls (content vals) h, allocated := allocated h + n\<rparr>"
    using runFieldLevelValidations_eq by blast
  show "calls (snd (runFieldLevelValidations vals h)) = calls h @ field_calls (content vals) h"
    "lastYupValidationResult (snd (runFieldLevelValidations vals h)) = lastYupValidationResult h"
    "props (snd (runFieldLevelValidations vals h)) = props h"
    "schemaFactoryCalls (snd (runFieldLevelValidations vals h)) = schemaFactoryCalls h"
    by (simp_all add: e)
qed

lemma validationResults_steps:
  obtains r1 h1 r2 h2 r3 h3 where
    "runFieldLevelValidations vals h = (r1, h1)"
    "(case validationSchema (props h) of
        Some sp \<Rightarrow> runValidationSchema sp vals h1
      | None \<Rightarrow> (Value emptyObject, h1)) = (r2, h2)"
    "(case formik_config.validate (props h) of
        Some handler \<Rightarrow> runValidateHandler handler vals h2
      | None \<Rightarrow> (Value emptyObject, h2)) = (r3, h3)"
    "validationResults vals h = ([r1, r2, r3], h3)"
    "props h1 = props h" "props h2 = props h"
proof -
  obtain r1 h1 where a: "runFieldLevelValidations vals h = (r1, h1)"
    by (cases "runFieldLevelValidations vals h")
  have p1: "props h1 = props h"
    using runFieldLevelValidations_keeps(3) [of vals h] a by simp
  obtain r2 h2 where b:
    "(case validationSchema (props h) of
        Some sp \<Rightarrow> runValidationSchema sp vals h1
      | None \<Rightarrow> (Value emptyObject, h1)) = (r2, h2)"
    by (cases "case validationSchema (props h) of
        Some sp \<Rightarrow> runValidationSchema sp vals h1
      | None \<Rightarrow> (Value emptyObject, h1)")
  have p2: "props h2 = props h"
  proof (cases "validationSchema (props h)")
    case None
    then show ?thesis using b p1 by simp
  next
    case (Some sp)
    then show ?thesis
      using b p1 runValidationSchema_frame [of h1 sp vals] by (simp add: validation_frame_def)
  qed
  obtain r3 h3 where c:
    "(case formik_config.validate (props h) of
        Some handler \<Rightarrow> runValidateHandler handler vals h2
      | None \<Rightarrow> (Value emptyObject, h2)) = (r3, h3)"
    by (cases "case formik_config.validate (props h) of
        Some handler \<Rightarrow> runValidateHandler handler vals h2
      | None \<Rightarrow> (Value emptyObject, h2)")
  have "validationResults vals h = ([r1, r2, r3], h3)"
    by (simp add: validationResults_def a b c p1 p2)
  then show ?thesis using that a b c p1 p2 by blast
qed

lemma resolved_schema_cong:
  "props h' = props h \<Longrightarrow> schemaFactoryCalls h' = schemaFactoryCalls h \<Longrightarrow>
   resolved_schema h' = resolved_schema h"
  by (simp add: resolved_schema_def split: option.splits schema_prop.splits)

lemma schema_cached_cong:
  "lastYupValidationResult h' = lastYupValidationResult h \<Longrightarrow>
   schema_cached sid vals h' = schema_cached sid vals h"
  by (simp add: schema_cached_def split: option.splits)

lemma validationResults_caches_schema:
  assumes refl: "strict_eq vals vals"
  shows "schema_cached (resolved_schema h) vals (snd (validationResults vals h))"
proof -
  obtain r1 h1 r2 h2 r3 h3 where
    a: "runFieldLevelValidations vals h = (r1, h1)" and
    b: "(case validationSchema (props h) of
        Some sp \<Rightarrow> runValidationSchema sp vals h1
      | None \<Rightarrow> (Value emptyObject, h1)) = (r2, h2)" and
    c: "(case formik_config.validate (props h) of
        Some handler \<Rightarrow> runValidateHandler handler vals h2
      | None \<Rightarrow> (Value emptyObject, h2)) = (r3, h3)" and
    vr: "validationResults vals h = ([r1, r2, r3], h3)" and
    p1: "props h1 = props h"
    by (rule validationResults_steps)
  have rs1: "resolved_schema h1 = resolved_schema h"
    using runFieldLevelValidations_keeps(3,4) [of vals h] a by (intro resolved_schema_cong) simp_all
  have y3: "lastYupValidationResult h3 = lastYupValidationResult h2"
  proof (cases "formik_config.validate (props h)")
    case None
    then show ?thesis using c by simp
  next
    case (Some handler)
    then show ?thesis using c runValidateHandler_eq(2) [of handler vals h2] by simp
  qed
  have "schema_cached (resolved_schema h) vals h2"
  proof (cases "validationSchema (props h)")
    case None
    then show ?thesis by (simp add: schema_cached_def resolved_schema_def)
  next
    case (Some sp)
    then show ?thesis
      using runValidationSchema_caches [OF refl, of h1 sp] b p1 rs1 by simp
  qed
  then show ?thesis
    using y3 by (simp add: vr schema_cached_cong [of h3 h2])
qed

lemma validationResults_calls_cached:
  assumes sc: "schema_cached (resolved_schema h) vals h"
  shows "calls (snd (validationResults vals h)) =
           calls h @ field_calls (content vals) h @ handler_calls vals h"
proof -
  obtain r1 h1 r2 h2 r3 h3 where
    a: "runFieldLevelValidations vals h = (r1, h1)" and
    b: "(case validationSchema (props h) of
        Some sp \<Rightarrow> runValidationSchema sp vals h1
      | None \<Rightarrow> (Value emptyObject, h1)) = (r2, h2)" and
    c: "(case formik_config.validate (props h) of
        Some handler \<Rightarrow> runValidateHandler handler vals h2
      | None \<Rightarrow> (Value emptyObject, h2)) = (r3, h3)" and
    vr: "validationResults vals h = ([r1, r2, r3], h3)" and
    p1: "props h1 = props h"
    by (rule validationResults_steps)
  have c1: "calls h1 = calls h @ field_calls (content vals) h"
    and y1: "lastYupValidationResult h1 = lastYupValidationResult h"
    using runFieldLevelValidations_keeps [of vals h] a by simp_all
  have rs1: "resolved_schema h1 = resolved_schema h"
    using runFieldLevelValidations_keeps(3,4) [of vals h] a by (intro resolved_schema_cong) simp_all
  have sc1: "schema_cached (resolved_schema h1) vals h1"
    using sc y1 rs1 by (simp add: schema_cached_cong [of h1 h])
  have c2: "calls h2 = calls h1"
  proof (cases "validationSchema (props h)")
    case None
    then show ?thesis using b by simp
  next
    case (Some sp)
    then show ?thesis
      using b runValidationSchema_hit [OF sc1, of sp] p1 by simp
  qed
  have "calls h3 = calls h2 @ handler_calls vals h"
  proof (cases "formik_config.validate (props h)")
    case None
    then show ?thesis using c by (simp add: handler_calls_def)
  next
    case (Some handler)
    then show ?thesis
      using c runValidateHandler_eq(1) [of handler vals h2] by (simp add: handler_calls_def)
  qed
  then show ?thesis by (simp add: vr c2 c1)
qed

text \<open>
  C1, as stated, fails: on the form whose field validator reports an error, the
  second run on the same values reference calls the field validator again and
  resolves to a new error tree.
\<close>

theorem identity_cache_counterexample:
  "snd first_run = snd (runValidations (values (state example_form)) example_form) \<and>
   calls (snd first_run) = [FieldValidate ''name'' (JStr [])] \<and>
   calls (snd second_run) = [FieldValidate ''name'' (JStr []), FieldValidate ''name'' (JStr [])] \<and>
   oid (fst second_run) \<noteq> oid (fst first_run)"
proof -
  have "calls (snd first_run) = [FieldValidate ''name'' (JStr [])]" by code_simp
  moreover have "calls (snd second_run) =
      [FieldValidate ''name'' (JStr []), FieldValidate ''name'' (JStr [])]" by code_simp
  moreover have "oid (fst second_run) \<noteq> oid (fst first_run)" by code_simp
  ultimately show ?thesis by (simp add: first_run_def)
qed

text \<open>
  C1, amended. Two runs on the same values object with no step in between, the
  schema resolved at the second run being the schema object resolved at the
  first (or no schema being configured): the second run calls every field-level
  validator and the whole-form validator again and makes no other call, so the
  schema's \<open>validate\<close> is not called again; and when the three results of the
  second run are the same references as those of the first, the second run
  resolves to the error tree of the first.
\<close>

theorem runValidations_again:
  assumes obj: "isMergeableObject (content vals)"
    and schema: "resolved_schema h1 = resolved_schema h"
    and first: "runValidations vals h = (ce1, h1)"
    and second: "runValidations vals h1 = (ce2, h2)"
  shows "calls h2 =
           calls h1 @
           map (\<lambda>f. FieldValidate f (getIn (content vals) f)) (fieldKeysWithValidation h) @
           (case formik_config.validate (props h) of
              Some handler \<Rightarrow> [ValidateHandler vals]
            | None \<Rightarrow> []) \<and>
         (every_same (fst (validationResults vals h1)) (fst (validationResults vals h)) \<longrightarrow>
            ce2 = ce1)"
proof -
  have p1: "props h1 = props h" and f1: "fields' h1 = fields' h"
    using runValidations_effect(1,3) [OF first] by simp_all
  have "schema_cached (resolved_schema h) vals (snd (validationResults vals h))"
    using strict_eq_object [OF obj] by (rule validationResults_caches_schema)
  then have sc: "schema_cached (resolved_schema h1) vals h1"
    using runValidations_effect(8) [OF first] schema
    by (simp add: schema_cached_cong [of h1 "snd (validationResults vals h)"])
  have "calls h2 = calls (snd (validationResults vals h1))"
    using runValidations_effect(7) [OF second] .
  also have "\<dots> = calls h1 @ field_calls (content vals) h1 @ handler_calls vals h1"
    using sc by (rule validationResults_calls_cached)
  finally have calls: "calls h2 =
           calls h1 @
           map (\<lambda>f. FieldValidate f (getIn (content vals) f)) (fieldKeysWithValidation h) @
           (case formik_config.validate (props h) of
              Some handler \<Rightarrow> [ValidateHandler vals]
            | None \<Rightarrow> [])"
    by (simp add: field_calls_def handler_calls_def p1 fieldKeys_frame [OF f1])
  have reuse: "ce2 = ce1"
    if same: "every_same (fst (validationResults vals h1)) (fst (validationResults vals h))"
  proof -
    obtain key where last: "lastValidationResults h1 = Some (key, ce1)"
      and key: "key = fst (validationResults vals h) \<or>
                every_same (fst (validationResults vals h)) key"
      using runValidations_stores [OF first] by blast
    have "lastValidationResults (snd (validationResults vals h1)) = Some (key, ce1)"
      using validationResults_frame [of h1 vals] last by (simp add: validation_frame_def)
    moreover have "every_same (fst (validationResults vals h1)) key"
    proof (cases "key = fst (validationResults vals h)")
      case True
      then show ?thesis using same by simp
    next
      case False
      then have "every_same (fst (validationResults vals h)) key" using key by simp
      with same show ?thesis
        by (rule every_same_trans) (simp add: validationResults_length)
    qed
    ultimately have "fst (runValidations vals h1) = ce1"
      by (rule runValidations_reuses)
    then show ?thesis using second by simp
  qed
  show ?thesis using calls reuse by blast
qed

theorem runValidations_again_witness:
  "isMergeableObject (content late_values) \<and>
   resolved_schema (snd (runValidations late_values factory_form)) = Some (Given 5) \<and>
   resolved_schema factory_form = Some (Given 5) \<and>
   calls (snd (runValidations late_values factory_form)) =
     [FieldValidate ''name'' (JStr ''late''),
      SchemaValidate (Given 5) (JObj [(''name'', JStr ''late'')])
        \<lparr>abortEarly = False, context_ = JObj []\<rparr>,
      ValidateHandler late_values] \<and>
   calls (snd (runValidations late_values (snd (runValidations late_values factory_form)))) =
     calls (snd (runValidations late_values factory_form)) @
     [FieldValidate ''name'' (JStr ''late''), ValidateHandler late_values] \<and>
   fst (runValidations late_values (snd (runValidations late_values factory_form))) =
     fst (runValidations late_values factory_form)"
proof -
  let ?h1 = "snd (runValidations late_values factory_form)"
  have o: "isMergeableObject (content late_values)"
    by (simp add: late_values_def)
  have s0: "resolved_schema factory_form = Some (Given 5)" by code_simp
  have s1: "resolved_schema ?h1 = Some (Given 5)" by code_simp
  have c1: "calls ?h1 =
     [FieldValidate ''name'' (JStr ''late''),
      SchemaValidate (Given 5) (JObj [(''name'', JStr ''late'')])
        \<lparr>abortEarly = False, context_ = JObj []\<rparr>,
      ValidateHandler late_values]"
    by code_simp
  have same: "every_same (fst (validationResults late_values ?h1))
                (fst (validationResults late_values factory_form))"
    by code_simp
  have keys: "map (\<lambda>f. FieldValidate f (getIn (content late_values) f))
                 (fieldKeysWithValidation factory_form) = [FieldValidate ''name'' (JStr ''late'')]"
    by code_simp
  have handler: "formik_config.validate (props factory_form) = Some (\<lambda>v. NotPromise undefined_value)"
    by (simp add: factory_form_def example_defs)
  show ?thesis
    using runValidations_again [of late_values ?h1 factory_form
        "fst (runValidations late_values factory_form)"
        "fst (runValidations late_values ?h1)" "snd (runValidations late_values ?h1)"]
      o s0 s1 same keys handler c1
    by simp
qed

end
